theory Spec2Isabelle
  imports Main "HOL-Library.Word" "HOL-Library.Sublist"
begin

section \<open>JavaScript strings\<close>

text \<open>
  A JavaScript string is a sequence of UTF-16 code units, and \<open>length\<close>, \<open>includes\<close>,
  \<open>endsWith\<close>, \<open>trim\<close> and the regular expressions of \<open>app/static/app.js\<close> all
  work on code units. A string is therefore a list of 16-bit words here; \<open>str\<close> embeds
  an ASCII literal.
\<close>

type_synonym jschar = "16 word"
type_synonym jsstring = "jschar list"

definition str :: "string \<Rightarrow> jsstring" where
  "str s = map of_char s"

abbreviation BACKSLASH :: jschar where "BACKSLASH \<equiv> 0x5C"
abbreviation SLASH :: jschar where "SLASH \<equiv> 0x2F"
abbreviation DQUOTE :: jschar where "DQUOTE \<equiv> 0x22"
abbreviation SQUOTE :: jschar where "SQUOTE \<equiv> 0x27"
abbreviation AMP :: jschar where "AMP \<equiv> 0x26"
abbreviation LT :: jschar where "LT \<equiv> 0x3C"
abbreviation GT :: jschar where "GT \<equiv> 0x3E"
abbreviation SEMI :: jschar where "SEMI \<equiv> 0x3B"
abbreviation PERCENT :: jschar where "PERCENT \<equiv> 0x25"

text \<open>
  The code units \<open>String.prototype.trim\<close> removes: ECMAScript's WhiteSpace (TAB, VT,
  FF, ZWNBSP and the Unicode space separators) and LineTerminator (LF, CR, LS, PS).
\<close>

definition isWhiteSpace :: "jschar \<Rightarrow> bool" where
  "isWhiteSpace c =
     (c \<in> {0x09, 0x0A, 0x0B, 0x0C, 0x0D, 0x20, 0xA0, 0x1680, 0x2028, 0x2029,
            0x202F, 0x205F, 0x3000, 0xFEFF}
      \<or> (0x2000 \<le> c \<and> c \<le> 0x200A))"

definition trim :: "jsstring \<Rightarrow> jsstring" where
  "trim s = rev (dropWhile isWhiteSpace (rev (dropWhile isWhiteSpace s)))"

definition includesChar :: "jsstring \<Rightarrow> jschar \<Rightarrow> bool" where
  "includesChar s c = (c \<in> set s)"

definition endsWith :: "jsstring \<Rightarrow> jschar \<Rightarrow> bool" where
  "endsWith s c = (s \<noteq> [] \<and> last s = c)"

section \<open>Export path: the trailing separator (app.js, ensureTrailingSeparator)\<close>

text \<open>
  \<^verbatim>\<open>
  function ensureTrailingSeparator(value) {
    if (!value) return value;
    const v = value.trim();
    const hasBack = v.includes("\\");
    const hasFwd = v.includes("/") && !hasBack;
    const sep = (hasBack || !hasFwd) ? "\\" : "/";
    if (v.endsWith("\\") || v.endsWith("/")) return v;
    return v + sep;
  }
  \<close>
  The callers pass the value of an input element, a string; the empty string is the
  only falsy one.
\<close>

definition ensureTrailingSeparator :: "jsstring \<Rightarrow> jsstring" where
  "ensureTrailingSeparator value =
     (if value = [] then value
      else let v = trim value;
               hasBack = includesChar v BACKSLASH;
               hasFwd = (includesChar v SLASH \<and> \<not> hasBack);
               sep = (if hasBack \<or> \<not> hasFwd then BACKSLASH else SLASH)
           in if endsWith v BACKSLASH \<or> endsWith v SLASH then v else v @ [sep])"

text \<open>A string holds both separator styles.\<close>

definition mixedSeparators :: "jsstring \<Rightarrow> bool" where
  "mixedSeparators s = (includesChar s BACKSLASH \<and> includesChar s SLASH)"

section \<open>HTML escaping (app.js, escapeHtml)\<close>

text \<open>
  \<^verbatim>\<open>
  function escapeHtml(s) {
    return s.replace(/[&<>"']/g, (m) => (
      m === "&" ? "&amp;" :
      m === "<" ? "&lt;" :
      m === ">" ? "&gt;" :
      m === '"' ? "&quot;" : "&#039;"
    ));
  }
  \<close>
  A global replace with a one-character class visits every code unit once:
  \<open>isSpecial\<close> is the class, \<open>replacement\<close> the callback.
\<close>

definition isSpecial :: "jschar \<Rightarrow> bool" where
  "isSpecial m = (m \<in> {AMP, LT, GT, DQUOTE, SQUOTE})"

definition replacement :: "jschar \<Rightarrow> jsstring" where
  "replacement m =
     (if m = AMP then str ''&amp;''
      else if m = LT then str ''&lt;''
      else if m = GT then str ''&gt;''
      else if m = DQUOTE then str ''&quot;''
      else str ''&#039;'')"

definition escapeHtml :: "jsstring \<Rightarrow> jsstring" where
  "escapeHtml s = concat (map (\<lambda>m. if isSpecial m then replacement m else [m]) s)"

text \<open>The five character references the callback can produce.\<close>

definition entities :: "jsstring list" where
  "entities = [str ''&amp;'', str ''&lt;'', str ''&gt;'', str ''&quot;'', str ''&#039;'']"

section \<open>The folder picker (app.js, initPathModal)\<close>

text \<open>
  The modal keeps \<open>currentPath\<close> and \<open>selected\<close> in two closure variables and the
  rest of its state in the DOM: the rows of \<open>#path_list\<close> with their \<open>data-path\<close> and
  \<open>data-denied\<close> attributes, the text input, the root selector, the parent stored on
  the Up button. A row element is addressed by its position in the list box.
  \<open>listPath\<close> is asynchronous: what it does before the \<open>fetch\<close> is
  \<open>listPath_begin\<close>, what it does with the response is \<open>listPath_end\<close>, and any
  other event can happen in between (\<open>requests\<close> holds the paths still awaited).
  The fields of the two server payloads carry a prefix (\<open>f_\<close> for a folder, \<open>l_\<close>
  for a listing) that keeps them apart from the fields of the selection.
\<close>

record row =
  textContent :: jsstring
  data_path :: "jsstring option"
  data_denied :: "jsstring option"
  is_selected :: bool

record selection =
  name :: jsstring
  path :: jsstring
  denied :: bool

record folder =
  f_name :: jsstring
  f_path :: jsstring
  f_denied :: bool

record listing =
  l_path :: jsstring
  l_parent :: jsstring
  l_folders :: "folder list"

record modal =
  hidden :: bool
  keydownBound :: bool
  status :: jsstring
  currentPath :: jsstring
  selected :: "selection option"
  rows :: "row list"
  currentInput :: jsstring
  rootSel :: jsstring
  up_parent :: jsstring
  up_disabled :: bool
  exportInput :: jsstring
  requests :: "jsstring list"

definition setModalStatus :: "jsstring \<Rightarrow> modal \<Rightarrow> modal" where
  "setModalStatus msg st = st\<lparr>status := msg\<rparr>"

definition openModal :: "modal \<Rightarrow> modal" where
  "openModal st =
     (setModalStatus (str ''Cargando carpetas'' @ [0x2026]) (st\<lparr>hidden := False\<rparr>))
       \<lparr>selected := None, rows := [], keydownBound := True\<rparr>"

definition closeModal :: "modal \<Rightarrow> modal" where
  "closeModal st =
     (setModalStatus [] (st\<lparr>hidden := True, keydownBound := False\<rparr>))\<lparr>selected := None\<rparr>"

definition listPath_begin :: "jsstring \<Rightarrow> modal \<Rightarrow> modal" where
  "listPath_begin p st =
     (setModalStatus (str ''Listando'' @ [0x2026]) st)
       \<lparr>selected := None, requests := requests st @ [p]\<rparr>"

text \<open>
  Setting \<open>innerHTML\<close> parses the markup. The parser first normalises the newlines of
  its input: a carriage return followed by a line feed, and a carriage return alone,
  become one line feed.
\<close>

fun normalizeNewlines :: "jsstring \<Rightarrow> jsstring" where
  "normalizeNewlines [] = []"
| "normalizeNewlines [a] = [if a = 0x0D then 0x0A else a]"
| "normalizeNewlines (a # b # cs) =
     (if a = 0x0D \<and> b = 0x0A then 0x0A # normalizeNewlines cs
      else if a = 0x0D then 0x0A # normalizeNewlines (b # cs)
      else a # normalizeNewlines (b # cs))"

text \<open>
  What the parser makes of an escaped string of the payload: in the text of an element
  the code unit 0 is dropped, in the value of an attribute it becomes U+FFFD; the
  entities of \<open>escapeHtml\<close> turn back into the characters they stand for.
\<close>

definition parsedText :: "jsstring \<Rightarrow> jsstring" where
  "parsedText s = filter (\<lambda>c. c \<noteq> 0) (normalizeNewlines s)"

definition parsedAttribute :: "jsstring \<Rightarrow> jsstring" where
  "parsedAttribute s = map (\<lambda>c. if c = 0 then 0xFFFD else c) (normalizeNewlines s)"

text \<open>
  \<^verbatim>\<open>
        listBox.innerHTML = folders.map(f => {
          const cls = `path-item${f.denied ? " is-denied" : ""}`;
          return `<div class="${cls}" data-path="${escapeHtml(f.path)}" data-denied="${f.denied ? "1" : "0"}">
              <span>${escapeHtml(f.name)}</span>
              <span class="small">${f.denied ? "Restringido" : ""}</span>
          </div>`;
        }).join("");
  \<close>
  The row \<open>listPath\<close> renders for a folder, as the parser builds it from the markup.
\<close>

definition folderRow :: "folder \<Rightarrow> row" where
  "folderRow f =
     \<lparr>textContent = [0x0A] @ replicate 14 0x20 @ parsedText (f_name f)
                     @ [0x0A] @ replicate 14 0x20
                     @ (if f_denied f then str ''Restringido'' else [])
                     @ [0x0A] @ replicate 10 0x20,
      data_path = Some (parsedAttribute (f_path f)),
      data_denied = Some (if f_denied f then str ''1'' else str ''0''),
      is_selected = False\<rparr>"

definition emptyRow :: row where
  "emptyRow = \<lparr>textContent = str ''(Sin subcarpetas)'', data_path = None,
                data_denied = None, is_selected = False\<rparr>"

definition listPath_end :: "jsstring \<Rightarrow> jsstring + listing \<Rightarrow> modal \<Rightarrow> modal" where
  "listPath_end p res st =
     (case res of
        Inl detail \<Rightarrow> setModalStatus detail st
      | Inr payload \<Rightarrow>
          let cur = (if l_path payload = [] then p else l_path payload)
          in setModalStatus []
               (st\<lparr>currentPath := cur, currentInput := cur,
                   rows := (if l_folders payload = [] then [emptyRow]
                            else map folderRow (l_folders payload)),
                   up_parent := l_parent payload,
                   up_disabled := (l_parent payload = [])\<rparr>))"

definition rowAt :: "modal \<Rightarrow> nat \<Rightarrow> row option" where
  "rowAt st i = (if i < length (rows st) then Some (rows st ! i) else None)"

text \<open>
  \<^verbatim>\<open>
  function selectRow(rowEl) {
    if (!rowEl) return;
    const denied = rowEl.getAttribute("data-denied") === "1";
    if (denied) return;
    $$(".path-item", listBox).forEach(x => x.classList.remove("is-selected"));
    rowEl.classList.add("is-selected");
    selected = { name: rowEl.textContent || "", path: rowEl.getAttribute("data-path") || "",
                 denied: false };
  }
  \<close>
\<close>

definition selectRow :: "nat option \<Rightarrow> modal \<Rightarrow> modal" where
  "selectRow rowEl st =
     (case rowEl of
        None \<Rightarrow> st
      | Some i \<Rightarrow>
          (case rowAt st i of
             None \<Rightarrow> st
           | Some r \<Rightarrow>
               if data_denied r = Some (str ''1'') then st
               else st\<lparr>rows := (map (\<lambda>x. x\<lparr>is_selected := False\<rparr>) (rows st))
                                  [i := r\<lparr>is_selected := True\<rparr>],
                       selected := Some \<lparr>name = textContent r,
                                         path = (case data_path r of None \<Rightarrow> [] | Some p \<Rightarrow> p),
                                         denied = False\<rparr>\<rparr>))"

text \<open>The double-click handler of the list box, after it has found the row.\<close>

definition dblclick :: "nat \<Rightarrow> modal \<Rightarrow> modal" where
  "dblclick i st =
     (case rowAt st i of
        None \<Rightarrow> st
      | Some r \<Rightarrow>
          if data_denied r = Some (str ''1'') then st
          else (case data_path r of
                  None \<Rightarrow> st
                | Some p \<Rightarrow> if p = [] then st else listPath_begin p st))"

definition noRoots :: jsstring where
  "noRoots = str ''No se detectaron ra'' @ [0xED] @ str ''ces para explorar.''"

text \<open>
  The events of the modal: the buttons, the keyboard, typing into the path input, and
  the two kinds of response (roots and listing), a failed one carrying its message.
\<close>

datatype event =
    BrowseClick | CloseClick | EscapeKey
  | RootsDone "jsstring + jsstring list"
  | RootChange jsstring
  | TypeCurrent jsstring
  | GoClick | UpClick | SelectClick
  | RowClick nat | RowDblClick nat
  | ListDone nat "jsstring + listing"

definition step :: "event \<Rightarrow> modal \<Rightarrow> modal" where
  "step e st =
     (case e of
        BrowseClick \<Rightarrow> openModal st
      | CloseClick \<Rightarrow> closeModal st
      | EscapeKey \<Rightarrow> if keydownBound st then closeModal st else st
      | RootsDone res \<Rightarrow>
          (case res of
             Inl msg \<Rightarrow> setModalStatus msg st
           | Inr [] \<Rightarrow> setModalStatus noRoots st
           | Inr (r # _) \<Rightarrow>
               if r = [] then setModalStatus noRoots st
               else listPath_begin r (st\<lparr>rootSel := r\<rparr>))
      | RootChange p \<Rightarrow> listPath_begin p (st\<lparr>rootSel := p\<rparr>)
      | TypeCurrent s \<Rightarrow> st\<lparr>currentInput := s\<rparr>
      | GoClick \<Rightarrow> (let p = trim (currentInput st) in if p = [] then st else listPath_begin p st)
      | UpClick \<Rightarrow>
          if up_disabled st \<or> up_parent st = [] then st
          else listPath_begin (up_parent st) st
      | SelectClick \<Rightarrow>
          (let p = ensureTrailingSeparator (trim (currentInput st))
           in if p = [] then st else closeModal (st\<lparr>exportInput := p\<rparr>))
      | RowClick i \<Rightarrow> (case rowAt st i of None \<Rightarrow> st | Some _ \<Rightarrow> selectRow (Some i) st)
      | RowDblClick i \<Rightarrow> dblclick i st
      | ListDone k res \<Rightarrow>
          if k < length (requests st)
          then listPath_end (requests st ! k) res
                 (st\<lparr>requests := take k (requests st) @ drop (Suc k) (requests st)\<rparr>)
          else st)"

text \<open>The states the modal can be in, from the state \<open>init\<close> at page load.\<close>

inductive reachable :: "modal \<Rightarrow> modal \<Rightarrow> bool" for init where
  reach_init: "reachable init init"
| reach_step: "reachable init st \<Longrightarrow> reachable init (step e st)"

definition selectionAllowed :: "modal \<Rightarrow> bool" where
  "selectionAllowed st = (case selected st of None \<Rightarrow> True | Some s \<Rightarrow> \<not> denied s)"

text \<open>A concrete session: the modal is opened, the roots arrive, drive C is listed.\<close>

definition closedModal :: modal where
  "closedModal = \<lparr>hidden = True, keydownBound = False, status = [], currentPath = [],
     selected = None, rows = [], currentInput = [], rootSel = [], up_parent = [],
     up_disabled = True, exportInput = [], requests = []\<rparr>"

definition driveC :: listing where
  "driveC = \<lparr>l_path = str ''C:'' @ [BACKSLASH], l_parent = [],
     l_folders = [\<lparr>f_name = str ''Windows'', f_path = str ''C:'' @ [BACKSLASH] @ str ''Windows'',
                    f_denied = True\<rparr>,
                  \<lparr>f_name = str ''Reports'', f_path = str ''C:'' @ [BACKSLASH] @ str ''Reports'',
                    f_denied = False\<rparr>]\<rparr>"

definition listedC :: modal where
  "listedC = step (ListDone 0 (Inr driveC))
               (step (RootsDone (Inr [str ''C:'' @ [BACKSLASH]])) (step BrowseClick closedModal))"

definition windowsRow :: row where
  "windowsRow = folderRow \<lparr>f_name = str ''Windows'',
     f_path = str ''C:'' @ [BACKSLASH] @ str ''Windows'', f_denied = True\<rparr>"

section \<open>The file name of a download (app.js, getFilenameFromDisposition)\<close>

text \<open>
  \<^verbatim>\<open>
  function getFilenameFromDisposition(disposition) {
    if (!disposition) return null;
    const match = /filename\*?=(?:UTF-8''|")?([^\";]+)/i.exec(disposition);
    if (!match) return null;
    return decodeURIComponent(match[1].replace(/"/g, "").trim());
  }
  \<close>
  The regular expression has no \<open>u\<close> flag, so under \<open>i\<close> a code unit matches an ASCII
  letter of the pattern only when it is that letter in either case: a code unit above
  127 is never folded onto an ASCII one.
\<close>

abbreviation STAR :: jschar where "STAR \<equiv> 0x2A"
abbreviation EQUALS :: jschar where "EQUALS \<equiv> 0x3D"

definition toLowerAscii :: "jschar \<Rightarrow> jschar" where
  "toLowerAscii c = (if 0x41 \<le> c \<and> c \<le> 0x5A then c + 0x20 else c)"

fun stripPrefixCI :: "jsstring \<Rightarrow> jsstring \<Rightarrow> jsstring option" where
  "stripPrefixCI [] s = Some s"
| "stripPrefixCI (p # ps) [] = None"
| "stripPrefixCI (p # ps) (c # cs) =
     (if toLowerAscii c = toLowerAscii p then stripPrefixCI ps cs else None)"

text \<open>The class \<open>[^\";]\<close> and the capturing group, which is greedy and needs one code unit.\<close>

definition valueChar :: "jschar \<Rightarrow> bool" where
  "valueChar c = (c \<noteq> DQUOTE \<and> c \<noteq> SEMI)"

definition capture :: "jsstring \<Rightarrow> jsstring option" where
  "capture s = (let m = takeWhile valueChar s in if m = [] then None else Some m)"

text \<open>
  A match that starts at the head of \<open>s\<close>. The star is optional but cannot be given
  back (an \<open>=\<close> must follow); the optional group is tried as \<open>UTF-8''\<close>, then as a
  double quote, then as nothing, and the first alternative after which the group
  captures something wins.
\<close>

definition orElse :: "'a option \<Rightarrow> 'a option \<Rightarrow> 'a option" where
  "orElse a b = (case a of Some x \<Rightarrow> Some x | None \<Rightarrow> b)"

definition matchAt :: "jsstring \<Rightarrow> jsstring option" where
  "matchAt s =
     (case stripPrefixCI (str ''filename'') s of
        None \<Rightarrow> None
      | Some r1 \<Rightarrow>
          (case (case r1 of [] \<Rightarrow> r1 | c # cs \<Rightarrow> if c = STAR then cs else r1) of
             [] \<Rightarrow> None
           | e # r3 \<Rightarrow>
               if e \<noteq> EQUALS then None
               else orElse (case stripPrefixCI (str ''UTF-8'' @ [SQUOTE, SQUOTE]) r3 of
                              None \<Rightarrow> None | Some r \<Rightarrow> capture r)
                   (orElse (case r3 of [] \<Rightarrow> None
                            | q # r \<Rightarrow> if q = DQUOTE then capture r else None)
                           (capture r3))))"

text \<open>\<open>exec\<close> returns the capture of the leftmost match.\<close>

fun execFilename :: "jsstring \<Rightarrow> jsstring option" where
  "execFilename [] = matchAt []"
| "execFilename (c # cs) =
     (case matchAt (c # cs) of Some m \<Rightarrow> Some m | None \<Rightarrow> execFilename cs)"

text \<open>
  \<open>decodeURIComponent\<close> as ECMAScript's Decode: every \<open>%XX\<close> is an octet, an octet
  below 128 is a code unit, a longer sequence must be the UTF-8 encoding of one code
  point (no overlong form, no surrogate, at most U+10FFFF), which is then written in
  UTF-16. Anything else throws \<open>URIError\<close>.
\<close>

datatype js_error = URIError

definition hexDigit :: "jschar \<Rightarrow> nat option" where
  "hexDigit c =
     (if 0x30 \<le> c \<and> c \<le> 0x39 then Some (unat c - 0x30)
      else if 0x41 \<le> c \<and> c \<le> 0x46 then Some (unat c - 0x41 + 10)
      else if 0x61 \<le> c \<and> c \<le> 0x66 then Some (unat c - 0x61 + 10)
      else None)"

fun escapeOctet :: "jsstring \<Rightarrow> (nat \<times> jsstring) option" where
  "escapeOctet (p # h1 # h2 # rest) =
     (if p = PERCENT
      then (case (hexDigit h1, hexDigit h2) of
              (Some a, Some b) \<Rightarrow> Some (16 * a + b, rest)
            | _ \<Rightarrow> None)
      else None)"
| "escapeOctet _ = None"

fun continuation :: "nat \<Rightarrow> jsstring \<Rightarrow> (nat list \<times> jsstring) option" where
  "continuation 0 s = Some ([], s)"
| "continuation (Suc n) s =
     (case escapeOctet s of
        None \<Rightarrow> None
      | Some (b, r) \<Rightarrow>
          (case continuation n r of
             None \<Rightarrow> None
           | Some (bs, r') \<Rightarrow> Some (b # bs, r')))"

definition leadingOnes :: "nat \<Rightarrow> nat" where
  "leadingOnes b =
     (if b < 0x80 then 0 else if b < 0xC0 then 1 else if b < 0xE0 then 2
      else if b < 0xF0 then 3 else if b < 0xF8 then 4 else 5)"

definition isCont :: "nat \<Rightarrow> bool" where
  "isCont b = (0x80 \<le> b \<and> b < 0xC0)"

fun utf8CodePoint :: "nat list \<Rightarrow> nat option" where
  "utf8CodePoint [b0, b1] =
     (let v = (b0 mod 32) * 64 + b1 mod 64
      in if isCont b1 \<and> 0x80 \<le> v then Some v else None)"
| "utf8CodePoint [b0, b1, b2] =
     (let v = (b0 mod 16) * 4096 + (b1 mod 64) * 64 + b2 mod 64
      in if isCont b1 \<and> isCont b2 \<and> 0x800 \<le> v \<and> \<not> (0xD800 \<le> v \<and> v \<le> 0xDFFF)
         then Some v else None)"
| "utf8CodePoint [b0, b1, b2, b3] =
     (let v = (b0 mod 8) * 262144 + (b1 mod 64) * 4096 + (b2 mod 64) * 64 + b3 mod 64
      in if isCont b1 \<and> isCont b2 \<and> isCont b3 \<and> 0x10000 \<le> v \<and> v \<le> 0x10FFFF
         then Some v else None)"
| "utf8CodePoint _ = None"

definition utf16Encode :: "nat \<Rightarrow> jsstring" where
  "utf16Encode v =
     (if v < 0x10000 then [of_nat v]
      else [of_nat (0xD800 + (v - 0x10000) div 1024), of_nat (0xDC00 + (v - 0x10000) mod 1024)])"

definition emit :: "jsstring \<Rightarrow> js_error + jsstring \<Rightarrow> js_error + jsstring" where
  "emit s r = (case r of Inl e \<Rightarrow> Inl e | Inr t \<Rightarrow> Inr (s @ t))"

function decodeURIComponent :: "jsstring \<Rightarrow> js_error + jsstring" where
  "decodeURIComponent [] = Inr []"
| "decodeURIComponent (c # cs) =
     (if c \<noteq> PERCENT then emit [c] (decodeURIComponent cs)
      else (case escapeOctet (c # cs) of
              None \<Rightarrow> Inl URIError
            | Some (b, r) \<Rightarrow>
                if b < 0x80 then emit [of_nat b] (decodeURIComponent r)
                else if leadingOnes b = 1 \<or> 4 < leadingOnes b then Inl URIError
                else (case continuation (leadingOnes b - 1) r of
                        None \<Rightarrow> Inl URIError
                      | Some (bs, r') \<Rightarrow>
                          (case utf8CodePoint (b # bs) of
                             None \<Rightarrow> Inl URIError
                           | Some v \<Rightarrow> emit (utf16Encode v) (decodeURIComponent r')))))"
  by pat_completeness auto
termination
proof -
  have octet: "length r < length s" if "escapeOctet s = Some (b, r)" for s b r
    using that by (induction s rule: escapeOctet.induct) (auto split: if_splits option.splits)
  have cont: "length r \<le> length s" if "continuation n s = Some (bs, r)" for n s bs r
    using that
  proof (induction n arbitrary: s bs r)
    case 0
    then show ?case by simp
  next
    case (Suc n)
    then show ?case
      by (fastforce split: option.splits prod.splits dest: octet)
  qed
  show ?thesis
  proof (relation "measure length", goal_cases)
    case 1
    then show ?case by simp
  next
    case (2 c cs)
    then show ?case by simp
  next
    case (3 c cs x2 b r)
    then show ?case using octet [of "c # cs" b r] by simp
  next
    case (4 c cs x2 b r x2a bs r')
    then show ?case
      using octet [of "c # cs" b r] cont [of "leadingOnes b - 1" r bs r'] by simp
  qed
qed

definition getFilenameFromDisposition :: "jsstring option \<Rightarrow> js_error + jsstring option" where
  "getFilenameFromDisposition disposition =
     (case disposition of
        None \<Rightarrow> Inr None
      | Some d \<Rightarrow>
          if d = [] then Inr None
          else (case execFilename d of
                  None \<Rightarrow> Inr None
                | Some m \<Rightarrow>
                    (case decodeURIComponent (trim (filter (\<lambda>c. c \<noteq> DQUOTE) m)) of
                       Inl e \<Rightarrow> Inl e
                     | Inr r \<Rightarrow> Inr (Some r))))"

section \<open>Server side: characters and case folding\<close>

text \<open>
  Modelled from the spec: the server side works on text. A character of the model is a
  code point below 256 (ASCII and Latin-1), identified by its code.
\<close>

definition code :: "char \<Rightarrow> nat" where
  "code c = of_char c"

text \<open>
  Modelled from the spec: the ASCII capital letters.
\<close>

definition isUpper :: "char \<Rightarrow> bool" where
  "isUpper c = (65 \<le> code c \<and> code c \<le> 90)"

text \<open>
  Modelled from the spec: the ASCII small letters.
\<close>

definition isLower :: "char \<Rightarrow> bool" where
  "isLower c = (97 \<le> code c \<and> code c \<le> 122)"

text \<open>
  Modelled from the spec: the capital letters beyond ASCII, the code points 192 to 222
  without the multiplication sign 215; the small letter of each lies 32 above it.
\<close>

definition isUpperLatin :: "char \<Rightarrow> bool" where
  "isUpperLatin c = (192 \<le> code c \<and> code c \<le> 222 \<and> code c \<noteq> 215)"

text \<open>
  Modelled from the spec: comparison regardless of letter case folds every capital letter
  onto its small letter and leaves every other character alone.
\<close>

definition lowerChar :: "char \<Rightarrow> char" where
  "lowerChar c = (if isUpper c \<or> isUpperLatin c then char_of (code c + 32) else c)"

text \<open>
  Modelled from the spec: case folding of a text.
\<close>

definition lower :: "string \<Rightarrow> string" where
  "lower s = map lowerChar s"

section \<open>The SQL statement validator (spec 4.1)\<close>



















section \<open>The export path sanitizer (spec 4.2)\<close>

abbreviation BSL :: char where "BSL \<equiv> CHR 0x5C"

text \<open>
  Modelled from the spec: separators are normalised to one canonical style (4.2), the
  backslash of the examples.
\<close>

definition canonicalSeparators :: "string \<Rightarrow> string" where
  "canonicalSeparators p = map (\<lambda>c. if c = CHR ''/'' then BSL else c) p"

text \<open>
  Modelled from the spec: the segments of a path, split at the separator.
\<close>

fun splitSegments :: "string \<Rightarrow> string list" where
  "splitSegments [] = [[]]"
| "splitSegments (c # cs) =
     (if c = BSL then [] # splitSegments cs
      else (case splitSegments cs of [] \<Rightarrow> [[c]] | w # ws \<Rightarrow> (c # w) # ws))"

text \<open>
  Modelled from the spec: a drive, a letter followed by a colon.
\<close>

definition isDrive :: "string \<Rightarrow> bool" where
  "isDrive s = (case s of [l, c] \<Rightarrow> (isUpper l \<or> isLower l) \<and> c = CHR '':'' | _ \<Rightarrow> False)"

text \<open>
  Modelled from the spec: the parent of the segments kept so far (last segment first):
  the last segment is dropped, but a drive that stands alone stays.
\<close>

definition parentOf :: "string list \<Rightarrow> string list" where
  "parentOf acc =
     (case acc of
        [] \<Rightarrow> []
      | [d] \<Rightarrow> if isDrive d then [d] else []
      | s # rest \<Rightarrow> rest)"

text \<open>
  Modelled from the spec: resolution to an absolute form without touching the file system
  (4.2): empty and \<open>.\<close> segments vanish and \<open>..\<close> steps to the parent. \<open>acc\<close> holds the
  segments kept so far, last first.
\<close>

fun resolveSegments :: "string list \<Rightarrow> string list \<Rightarrow> string list" where
  "resolveSegments acc [] = rev acc"
| "resolveSegments acc (s # ss) =
     (if s = [] \<or> s = ''.'' then resolveSegments acc ss
      else if s = ''..'' then resolveSegments (parentOf acc) ss
      else resolveSegments (s # acc) ss)"

text \<open>
  Modelled from the spec: the segments of the normalised path.
\<close>

definition segments :: "string \<Rightarrow> string list" where
  "segments p = resolveSegments [] (splitSegments (canonicalSeparators p))"

text \<open>
  Modelled from the spec: the segments with their case folded, for case-insensitive matching.
\<close>

definition segmentsCI :: "string \<Rightarrow> string list" where
  "segmentsCI p = map lower (segments p)"

text \<open>
  Modelled from the spec: the root of a path, its leading separators: none, one for a
  path from the root of the drive, two for a network path.
\<close>

definition rootOf :: "string \<Rightarrow> string" where
  "rootOf p = take 2 (takeWhile (\<lambda>c. c = BSL) (canonicalSeparators p))"

text \<open>
  Modelled from the spec: a network path starts with two separators.
\<close>

definition isUnc :: "string \<Rightarrow> bool" where
  "isUnc p = (rootOf p = [BSL, BSL])"

text \<open>
  Modelled from the spec: an administrative share of a host (4.2): a network
  path whose second segment is a letter followed by \<open>$\<close>.
\<close>

definition isAdminShare :: "string \<Rightarrow> bool" where
  "isAdminShare p =
     (isUnc p \<and>
      (case segments p of
         host # share # rest \<Rightarrow>
           (case share of [l, d] \<Rightarrow> (isUpper l \<or> isLower l) \<and> d = CHR ''$'' | _ \<Rightarrow> False)
       | _ \<Rightarrow> False))"

text \<open>
  Modelled from the spec: joining texts with a separator between them.
\<close>

fun joinWith :: "string \<Rightarrow> string list \<Rightarrow> string" where
  "joinWith sep [] = []"
| "joinWith sep [x] = x"
| "joinWith sep (x # xs) = x @ sep @ joinWith sep xs"

text \<open>
  Modelled from the spec: the normalised form of an allowed path: its root, its segments
  joined, and a trailing separator appended (4.2) unless the text already ends with one,
  which is the case of a bare root.
\<close>

definition normalizedPath :: "string \<Rightarrow> string" where
  "normalizedPath p =
     (let b = rootOf p @ joinWith [BSL] (segments p)
      in if b \<noteq> [] \<and> last b = BSL then b else b @ [BSL])"

text \<open>
  Modelled from the spec: the configuration \<open>{deny-prefixes, optional allowed-roots,
  strict-filesystem-check flag}\<close> of 4.2.
\<close>

record path_config =
  denyPrefixes :: "string list"
  allowedRoots :: "string list option"
  strictFilesystemCheck :: bool

text \<open>
  Modelled from the spec: the security denials of 7.
\<close>

datatype path_denial = SystemPath | AdminShare | OutsideAllowedRoots

text \<open>
  Modelled from the spec: the verdict of 4.2; a failed probe in strict mode is a resource error,
  not a denial.
\<close>

datatype path_verdict = PathAllowed string | PathDenied path_denial | PathResourceError

text \<open>
  Modelled from the spec: segment-wise match (4.2): the case-folded segments of the prefix
  start the case-folded segments of the path.
\<close>

definition matchesPrefix :: "string \<Rightarrow> string \<Rightarrow> bool" where
  "matchesPrefix d p = prefix (segmentsCI d) (segmentsCI p)"

text \<open>
  Modelled from the spec: the path matches one of the prefixes.
\<close>

definition underAny :: "string list \<Rightarrow> string \<Rightarrow> bool" where
  "underAny ds p = list_ex (\<lambda>d. matchesPrefix d p) ds"

text \<open>
  Modelled from the spec: the sanitizer \<open>validateExportPath\<close> of the repository's
  \<open>app/core/settings.py\<close>, a file that is not available. \<open>writable\<close> stands for the probe
  of the file system that strict mode makes.
\<close>

definition validateExportPath :: "(string \<Rightarrow> bool) \<Rightarrow> path_config \<Rightarrow> string \<Rightarrow> path_verdict" where
  "validateExportPath writable cfg rawPath =
     (if underAny (denyPrefixes cfg) rawPath then PathDenied SystemPath
      else if isAdminShare rawPath then PathDenied AdminShare
      else if (case allowedRoots cfg of None \<Rightarrow> False | Some roots \<Rightarrow> \<not> underAny roots rawPath)
        then PathDenied OutsideAllowedRoots
      else if strictFilesystemCheck cfg \<and> \<not> writable (normalizedPath rawPath)
        then PathResourceError
      else PathAllowed (normalizedPath rawPath))"

text \<open>
  Modelled from the spec: a configuration whose only rule is the Windows directory of drive C,
  the example of 4.2.
\<close>

definition windowsOnly :: path_config where
  "windowsOnly = \<lparr>denyPrefixes = [''C:'' @ [BSL] @ ''Windows''], allowedRoots = None,
                   strictFilesystemCheck = False\<rparr>"

section \<open>The spool script generator (spec 4.4)\<close>

abbreviation DQ :: char where "DQ \<equiv> CHR 0x22"

text \<open>
  Modelled from the spec: the row-emission logic is an SQL string expression that the
  script hands to the SQL client (the generator is the repository's \<open>app/services/generators.py\<close>, a file
  that is not available; the readme names its \<open>REPLACE\<close> of a double quote by two).
  An expression is a literal, a column of the source, a replacement or a concatenation.
\<close>

datatype sqlexpr =
    Lit string
  | Col string
  | Replace sqlexpr string string
  | Concat sqlexpr sqlexpr

text \<open>
  Modelled from the spec: SQL's \<open>REPLACE\<close>, every occurrence of the search text from left
  to right, none for an empty search text.
\<close>

function replaceAll :: "string \<Rightarrow> string \<Rightarrow> string \<Rightarrow> string" where
  "replaceAll search rep [] = []"
| "replaceAll search rep (c # cs) =
     (if search \<noteq> [] \<and> prefix search (c # cs)
      then rep @ replaceAll search rep (drop (length search) (c # cs))
      else c # replaceAll search rep cs)"
  by pat_completeness auto
termination
  by (relation "measure (\<lambda>(search, rep, s). length s)") auto

text \<open>
  Modelled from the spec: the value of an expression on a row of the source, the row
  giving each column its value as text.
\<close>

fun evalExpr :: "(string \<Rightarrow> string) \<Rightarrow> sqlexpr \<Rightarrow> string" where
  "evalExpr row (Lit s) = s"
| "evalExpr row (Col c) = row c"
| "evalExpr row (Replace e search rep) = replaceAll search rep (evalExpr row e)"
| "evalExpr row (Concat a b) = evalExpr row a @ evalExpr row b"

text \<open>
  Modelled from the spec: the expression for one field, the column with each double
  quote replaced by two, between two double quotes.
\<close>

definition fieldExpr :: "string \<Rightarrow> sqlexpr" where
  "fieldExpr c = Concat (Lit [DQ]) (Concat (Replace (Col c) [DQ] [DQ, DQ]) (Lit [DQ]))"

text \<open>Modelled from the spec: the expression for a row, its fields joined with commas.\<close>

fun rowExpr :: "string list \<Rightarrow> sqlexpr" where
  "rowExpr [] = Lit []"
| "rowExpr [c] = fieldExpr c"
| "rowExpr (c # cs) = Concat (fieldExpr c) (Concat (Lit '','') (rowExpr cs))"

text \<open>
  Modelled from the spec: the header line, each column name individually quoted and the
  names joined with commas.
\<close>

definition headerLine :: "string list \<Rightarrow> string" where
  "headerLine cols = joinWith '','' (map (\<lambda>c. [DQ] @ c @ [DQ]) cols)"

text \<open>
  Modelled from the spec: the directives of a spool script. The spec fixes their kind and
  order, not their spelling.
\<close>

datatype directive =
    DisablePagination
  | DisableFeedback
  | DisableHeading
  | SpoolTo string
  | Prompt string
  | SelectRows sqlexpr string
  | SpoolOff
  | Exit

text \<open>
  Modelled from the spec: \<open>generate(columns, sourceDescriptor, exportPath, reportName)\<close>,
  the directives in the fixed order of 4.4.
\<close>

definition generateSpool :: "string list \<Rightarrow> string \<Rightarrow> string \<Rightarrow> string \<Rightarrow> directive list" where
  "generateSpool cols sourceDescriptor exportPath reportName =
     [DisablePagination, DisableFeedback, DisableHeading,
      SpoolTo (exportPath @ reportName @ ''.csv''),
      Prompt (headerLine cols),
      SelectRows (rowExpr cols) sourceDescriptor,
      SpoolOff, Exit]"

text \<open>
  Modelled from the spec: what running a script writes to the spool file, line by line,
  when the source yields \<open>sourceRows\<close>. The flag says whether a spool file is open.
\<close>

fun runScript :: "(string \<Rightarrow> string) list \<Rightarrow> bool \<Rightarrow> directive list \<Rightarrow> string list" where
  "runScript sourceRows spooling [] = []"
| "runScript sourceRows spooling (SpoolTo f # ds) = runScript sourceRows True ds"
| "runScript sourceRows spooling (SpoolOff # ds) = runScript sourceRows False ds"
| "runScript sourceRows spooling (Exit # ds) = []"
| "runScript sourceRows spooling (Prompt s # ds) =
     (if spooling then [s] else []) @ runScript sourceRows spooling ds"
| "runScript sourceRows spooling (SelectRows e src # ds) =
     (if spooling then map (\<lambda>row. evalExpr row e) sourceRows else []) @ runScript sourceRows spooling ds"
| "runScript sourceRows spooling (d # ds) = runScript sourceRows spooling ds"

text \<open>
  Modelled from the spec: the field in the words of 4.4, each literal double quote of the
  value replaced by two and the whole wrapped in double quotes. The lines of a script
  are compared with it.
\<close>

definition csvField :: "string \<Rightarrow> string" where
  "csvField v = [DQ] @ concat (map (\<lambda>ch. if ch = DQ then [DQ, DQ] else [ch]) v) @ [DQ]"

text \<open>The two rows of the scenario of 8, for the columns \<open>id\<close> and \<open>name\<close>.\<close>

definition rowAna :: "string \<Rightarrow> string" where
  "rowAna c = (if c = ''id'' then ''1'' else ''Ana'')"

definition rowLuis :: "string \<Rightarrow> string" where
  "rowLuis c = (if c = ''id'' then ''2'' else ''Lu'' @ [DQ] @ ''is'')"

section \<open>Facts about trimming\<close>

lemma isWhiteSpace_BACKSLASH [simp]: "\<not> isWhiteSpace BACKSLASH"
  by (simp add: isWhiteSpace_def)

lemma isWhiteSpace_SLASH [simp]: "\<not> isWhiteSpace SLASH"
  by (simp add: isWhiteSpace_def)

lemma trim_Nil [simp]: "trim [] = []"
  by (simp add: trim_def)

lemma trim_fixed:
  assumes "s \<noteq> []" "\<not> isWhiteSpace (hd s)" "\<not> isWhiteSpace (last s)"
  shows "trim s = s"
proof -
  from assms(1,2) have a: "dropWhile isWhiteSpace s = s"
    by (cases s) simp_all
  from assms(1,3) have b: "dropWhile isWhiteSpace (rev s) = rev s"
    by (cases "rev s") (simp_all add: last_rev [symmetric] hd_rev)
  show ?thesis by (simp add: trim_def a b)
qed

lemma trim_hd: "trim s \<noteq> [] \<Longrightarrow> \<not> isWhiteSpace (hd (trim s))"
proof -
  assume ne: "trim s \<noteq> []"
  let ?d = "dropWhile isWhiteSpace s"
  let ?e = "dropWhile isWhiteSpace (rev ?d)"
  have t: "trim s = rev ?e" by (simp add: trim_def)
  have dne: "?d \<noteq> []"
  proof
    assume d: "?d = []"
    have "trim s = []" by (simp only: trim_def d rev.simps dropWhile.simps)
    with ne show False by simp
  qed
  then have hdd: "\<not> isWhiteSpace (hd ?d)" by (rule hd_dropWhile)
  from ne t have ene: "?e \<noteq> []" by simp
  have "\<exists>ws. rev ?d = ws @ ?e"
    by (metis takeWhile_dropWhile_id)
  then obtain ws where w: "rev ?d = ws @ ?e" by blast
  then have "?d = rev ?e @ rev ws" by (metis rev_append rev_rev_ident)
  with ene have "hd ?d = hd (rev ?e)" by (metis hd_append2 rev_is_Nil_conv)
  with hdd t show ?thesis by simp
qed

lemma trim_last: "trim s \<noteq> [] \<Longrightarrow> \<not> isWhiteSpace (last (trim s))"
proof -
  assume ne: "trim s \<noteq> []"
  let ?e = "dropWhile isWhiteSpace (rev (dropWhile isWhiteSpace s))"
  have t: "trim s = rev ?e" by (simp add: trim_def)
  with ne have "?e \<noteq> []" by simp
  then have "\<not> isWhiteSpace (hd ?e)" by (rule hd_dropWhile)
  moreover from \<open>?e \<noteq> []\<close> have "last (rev ?e) = hd ?e" by (simp add: last_rev)
  ultimately show ?thesis using t by simp
qed

lemma trim_idem [simp]: "trim (trim s) = trim s"
proof (cases "trim s = []")
  case True
  then show ?thesis by simp
next
  case False
  then show ?thesis by (intro trim_fixed trim_hd trim_last)
qed

lemma set_trim_subset: "set (trim s) \<subseteq> set s"
proof
  fix x
  assume "x \<in> set (trim s)"
  then have "x \<in> set (dropWhile isWhiteSpace (rev (dropWhile isWhiteSpace s)))"
    by (simp add: trim_def)
  then have "x \<in> set (rev (dropWhile isWhiteSpace s))"
    by (rule set_dropWhileD)
  then have "x \<in> set (dropWhile isWhiteSpace s)"
    by simp
  then show "x \<in> set s"
    by (rule set_dropWhileD)
qed

lemma dropWhile_keeps: "c \<in> set s \<Longrightarrow> \<not> P c \<Longrightarrow> c \<in> set (dropWhile P s)"
  by (induction s) auto

lemma trim_keeps: "c \<in> set s \<Longrightarrow> \<not> isWhiteSpace c \<Longrightarrow> c \<in> set (trim s)"
  by (simp add: trim_def dropWhile_keeps)

lemma includes_trim:
  "\<not> isWhiteSpace c \<Longrightarrow> includesChar (trim s) c = includesChar s c"
  using set_trim_subset [of s] trim_keeps [of c s] by (auto simp: includesChar_def)

section \<open>Properties of the trailing separator\<close>

lemma ensureTrailingSeparator_ends:
  assumes "value \<noteq> []"
  shows "endsWith (ensureTrailingSeparator value) BACKSLASH
       \<or> endsWith (ensureTrailingSeparator value) SLASH"
  using assms by (auto simp: ensureTrailingSeparator_def Let_def endsWith_def)

lemma trim_snoc_separator:
  assumes "\<not> isWhiteSpace c"
  shows "trim (trim s @ [c]) = trim s @ [c]"
proof (rule trim_fixed)
  show "trim s @ [c] \<noteq> []" by simp
  show "\<not> isWhiteSpace (hd (trim s @ [c]))"
    using assms trim_hd [of s] by (cases "trim s") auto
  show "\<not> isWhiteSpace (last (trim s @ [c]))"
    using assms by simp
qed

lemma ensureTrailingSeparator_trimmed:
  "trim (ensureTrailingSeparator value) = ensureTrailingSeparator value"
  by (simp add: ensureTrailingSeparator_def Let_def trim_snoc_separator)

lemma ensureTrailingSeparator_Nil_iff:
  "ensureTrailingSeparator value = [] \<longleftrightarrow> value = []"
  by (auto simp: ensureTrailingSeparator_def Let_def endsWith_def)

text \<open>The result of the function, by cases on the trimmed value.\<close>

lemma ensureTrailingSeparator_cases:
  assumes "value \<noteq> []"
  shows "ensureTrailingSeparator value =
     (if trim value \<noteq> [] \<and> last (trim value) \<in> {BACKSLASH, SLASH} then trim value
      else if SLASH \<in> set (trim value) \<and> BACKSLASH \<notin> set (trim value)
        then trim value @ [SLASH]
      else trim value @ [BACKSLASH])"
  using assms by (auto simp: ensureTrailingSeparator_def Let_def endsWith_def includesChar_def)

lemma ensureTrailingSeparator_twice:
  "ensureTrailingSeparator (ensureTrailingSeparator p) = ensureTrailingSeparator p"
proof (cases "p = []")
  case True
  then show ?thesis by (simp add: ensureTrailingSeparator_def)
next
  case False
  let ?r = "ensureTrailingSeparator p"
  from False have ends: "endsWith ?r BACKSLASH \<or> endsWith ?r SLASH"
    by (rule ensureTrailingSeparator_ends)
  from False have ne: "?r \<noteq> []"
    by (simp add: ensureTrailingSeparator_Nil_iff)
  have tr: "trim ?r = ?r"
    by (rule ensureTrailingSeparator_trimmed)
  from ends tr show ?thesis
    by (auto simp: ensureTrailingSeparator_cases [OF ne] endsWith_def)
qed

text \<open>
  C5. For every non-empty raw path, the normalised export path is non-empty and its last
  code unit is a separator, a backslash or a slash. The result is the path itself, trimmed:
  unchanged when the trimmed path already ends with a separator, and otherwise followed by
  exactly one separator, which is a slash exactly when the trimmed path holds a slash and
  no backslash.
\<close>

theorem ensureTrailingSeparator_trailing:
  assumes "value \<noteq> []"
  shows "ensureTrailingSeparator value \<noteq> []
       \<and> last (ensureTrailingSeparator value) \<in> {BACKSLASH, SLASH}
       \<and> (ensureTrailingSeparator value = trim value
          \<or> ensureTrailingSeparator value = trim value @ [BACKSLASH]
          \<or> ensureTrailingSeparator value = trim value @ [SLASH])
       \<and> (ensureTrailingSeparator value = trim value
          \<longleftrightarrow> trim value \<noteq> [] \<and> last (trim value) \<in> {BACKSLASH, SLASH})
       \<and> (ensureTrailingSeparator value = trim value @ [SLASH]
          \<longleftrightarrow> \<not> (trim value \<noteq> [] \<and> last (trim value) \<in> {BACKSLASH, SLASH})
              \<and> SLASH \<in> set (trim value) \<and> BACKSLASH \<notin> set (trim value))"
proof -
  let ?r = "ensureTrailingSeparator value"
  note c = ensureTrailingSeparator_cases [OF assms]
  have 1: "?r \<noteq> []"
    using assms by (simp add: ensureTrailingSeparator_Nil_iff)
  have 2: "last ?r \<in> {BACKSLASH, SLASH}"
    using ensureTrailingSeparator_ends [OF assms] by (auto simp: endsWith_def)
  have 3: "?r = trim value \<or> ?r = trim value @ [BACKSLASH] \<or> ?r = trim value @ [SLASH]"
    by (simp add: c)
  have 4: "?r = trim value \<longleftrightarrow> trim value \<noteq> [] \<and> last (trim value) \<in> {BACKSLASH, SLASH}"
    by (simp add: c)
  have 5: "?r = trim value @ [SLASH]
      \<longleftrightarrow> \<not> (trim value \<noteq> [] \<and> last (trim value) \<in> {BACKSLASH, SLASH})
          \<and> SLASH \<in> set (trim value) \<and> BACKSLASH \<notin> set (trim value)"
    by (simp add: c)
  from 1 2 3 4 5 show ?thesis by (intro conjI)
qed

theorem ensureTrailingSeparator_trailing_witness:
  "str ''D:'' @ [BACKSLASH] @ str ''Reports'' \<noteq> []
   \<and> trim (str ''D:'' @ [BACKSLASH] @ str ''Reports'') = str ''D:'' @ [BACKSLASH] @ str ''Reports''
   \<and> ensureTrailingSeparator (str ''D:'' @ [BACKSLASH] @ str ''Reports'')
       = str ''D:'' @ [BACKSLASH] @ str ''Reports'' @ [BACKSLASH]
   \<and> last (ensureTrailingSeparator (str ''D:'' @ [BACKSLASH] @ str ''Reports''))
       \<in> {BACKSLASH, SLASH}
   \<and> ensureTrailingSeparator (str '' /srv/data '') = str ''/srv/data/''
   \<and> ensureTrailingSeparator (str ''/srv/data/'') = str ''/srv/data/''"
proof -
  let ?v = "str ''D:'' @ [BACKSLASH] @ str ''Reports''"
  have ne: "?v \<noteq> []"
    by (simp add: str_def)
  have t: "trim ?v = ?v"
    by (simp add: str_def trim_def isWhiteSpace_def)
  have ns: "SLASH \<notin> set ?v" "last ?v \<notin> {BACKSLASH, SLASH}"
    by (simp_all add: str_def)
  from ensureTrailingSeparator_trailing [OF ne]
  have "ensureTrailingSeparator ?v \<noteq> trim ?v @ [SLASH]
      \<and> ensureTrailingSeparator ?v \<noteq> trim ?v
      \<and> (ensureTrailingSeparator ?v = trim ?v
          \<or> ensureTrailingSeparator ?v = trim ?v @ [BACKSLASH]
          \<or> ensureTrailingSeparator ?v = trim ?v @ [SLASH])
      \<and> last (ensureTrailingSeparator ?v) \<in> {BACKSLASH, SLASH}"
    unfolding t using ns by blast
  then have v: "ensureTrailingSeparator ?v = ?v @ [BACKSLASH]"
      and l: "last (ensureTrailingSeparator ?v) \<in> {BACKSLASH, SLASH}"
    unfolding t by blast+
  have s: "ensureTrailingSeparator (str '' /srv/data '') = str ''/srv/data/''"
      "ensureTrailingSeparator (str ''/srv/data/'') = str ''/srv/data/''"
    by (simp_all add: ensureTrailingSeparator_def str_def trim_def isWhiteSpace_def
        includesChar_def endsWith_def)
  from ne t v l s show ?thesis by simp
qed

section \<open>Properties of HTML escaping\<close>

lemma escapeHtml_Nil [simp]: "escapeHtml [] = []"
  by (simp add: escapeHtml_def)

lemma escapeHtml_Cons:
  "escapeHtml (c # s) = (if isSpecial c then replacement c else [c]) @ escapeHtml s"
  by (simp add: escapeHtml_def)

lemma replacement_entity: "replacement m \<in> set entities"
  by (simp add: replacement_def entities_def)

lemma entity_amp_first:
  assumes "e \<in> set entities" "e = a @ AMP # u"
  shows "a = []"
  using assms
  by (auto simp: entities_def str_def append_eq_Cons_conv)

lemma entity_no_markup:
  assumes "e \<in> set entities" "c \<in> set e"
  shows "c \<notin> {LT, GT, DQUOTE, SQUOTE}"
  using assms by (auto simp: entities_def str_def)

lemma escapeHtml_no_markup: "c \<in> set (escapeHtml s) \<Longrightarrow> c \<notin> {LT, GT, DQUOTE, SQUOTE}"
proof (induction s)
  case Nil
  then show ?case by simp
next
  case (Cons x s)
  show ?case
  proof (cases "isSpecial x")
    case True
    with Cons.prems have "c \<in> set (replacement x) \<or> c \<in> set (escapeHtml s)"
      by (simp add: escapeHtml_Cons)
    then show ?thesis
      using entity_no_markup [OF replacement_entity] Cons.IH by blast
  next
    case False
    with Cons.prems have "c = x \<or> c \<in> set (escapeHtml s)"
      by (simp add: escapeHtml_Cons)
    then show ?thesis
      using False Cons.IH by (auto simp: isSpecial_def)
  qed
qed

lemma escapeHtml_amp_split:
  "escapeHtml s = a @ AMP # b \<Longrightarrow> \<exists>e \<in> set entities. prefix e (AMP # b)"
proof (induction s arbitrary: a)
  case Nil
  then show ?case by simp
next
  case (Cons x s)
  let ?h = "if isSpecial x then replacement x else [x]"
  from Cons.prems have eq: "?h @ escapeHtml s = a @ AMP # b"
    by (simp add: escapeHtml_Cons)
  then obtain us where
    "(?h = a @ us \<and> us @ escapeHtml s = AMP # b) \<or> (?h @ us = a \<and> escapeHtml s = us @ AMP # b)"
    unfolding append_eq_append_conv2 by blast
  then consider
      (rest) us where "escapeHtml s = us @ AMP # b"
    | (head) u where "?h = a @ AMP # u" "u @ escapeHtml s = b"
    by (cases us) auto
  then show ?case
  proof cases
    case rest
    then show ?thesis by (rule Cons.IH)
  next
    case head
    show ?thesis
    proof (cases "isSpecial x")
      case True
      with head have r: "replacement x = a @ AMP # u" by simp
      have "a = []"
        by (rule entity_amp_first [OF replacement_entity r])
      with r head have "AMP # b = replacement x @ escapeHtml s" by simp
      then have "prefix (replacement x) (AMP # b)" by simp
      with replacement_entity show ?thesis by blast
    next
      case False
      with head have "[x] = a @ AMP # u" by simp
      then have "x = AMP" by (cases a) auto
      with False show ?thesis by (simp add: isSpecial_def)
    qed
  qed
qed

text \<open>
  C8. For every string \<open>s\<close>, \<open>escapeHtml s\<close> holds none of the code units
  \<open><\<close>, \<open>>\<close>, double quote and single quote, and at every position where it
  holds \<open>&\<close> one of the five character references starts.
\<close>

theorem escapeHtml_safe:
  "(\<forall>c \<in> set (escapeHtml s). c \<notin> {LT, GT, DQUOTE, SQUOTE})
   \<and> (\<forall>i < length (escapeHtml s). escapeHtml s ! i = AMP \<longrightarrow>
         (\<exists>e \<in> set entities. prefix e (drop i (escapeHtml s))))"
proof (intro conjI ballI allI impI)
  fix c assume "c \<in> set (escapeHtml s)"
  then show "c \<notin> {LT, GT, DQUOTE, SQUOTE}" by (rule escapeHtml_no_markup)
next
  fix i assume i: "i < length (escapeHtml s)" and amp: "escapeHtml s ! i = AMP"
  let ?r = "escapeHtml s"
  from i amp have "?r = take i ?r @ AMP # drop (Suc i) ?r"
    by (metis id_take_nth_drop)
  then have "\<exists>e \<in> set entities. prefix e (AMP # drop (Suc i) ?r)"
    by (rule escapeHtml_amp_split)
  moreover from i amp have "drop i ?r = AMP # drop (Suc i) ?r"
    by (metis Cons_nth_drop_Suc)
  ultimately show "\<exists>e \<in> set entities. prefix e (drop i ?r)" by simp
qed

theorem escapeHtml_safe_witness:
  "escapeHtml (str ''<a href='x'>R&D</a>'')
     = str ''&lt;a href=&#039;x&#039;&gt;R&amp;D&lt;/a&gt;''
   \<and> LT \<notin> set (escapeHtml (str ''<a href='x'>R&D</a>''))
   \<and> GT \<notin> set (escapeHtml (str ''<a href='x'>R&D</a>''))
   \<and> DQUOTE \<notin> set (escapeHtml (str ''<a href='x'>R&D</a>''))
   \<and> SQUOTE \<notin> set (escapeHtml (str ''<a href='x'>R&D</a>''))
   \<and> escapeHtml (str ''<a href='x'>R&D</a>'') ! 0 = AMP
   \<and> (\<exists>e \<in> set entities. prefix e (drop 0 (escapeHtml (str ''<a href='x'>R&D</a>''))))"
proof -
  let ?s = "str ''<a href='x'>R&D</a>''"
  have v: "escapeHtml ?s = str ''&lt;a href=&#039;x&#039;&gt;R&amp;D&lt;/a&gt;''"
    by (simp add: escapeHtml_def str_def isSpecial_def replacement_def)
  have z: "escapeHtml ?s ! 0 = AMP"
    by (simp add: v) (simp add: str_def)
  have l: "0 < length (escapeHtml ?s)"
    by (simp add: v) (simp add: str_def)
  from escapeHtml_safe [of ?s] l z
  have "(\<forall>c \<in> set (escapeHtml ?s). c \<notin> {LT, GT, DQUOTE, SQUOTE})
      \<and> (\<exists>e \<in> set entities. prefix e (drop 0 (escapeHtml ?s)))"
    by blast
  then have "LT \<notin> set (escapeHtml ?s) \<and> GT \<notin> set (escapeHtml ?s)
      \<and> DQUOTE \<notin> set (escapeHtml ?s) \<and> SQUOTE \<notin> set (escapeHtml ?s)
      \<and> (\<exists>e \<in> set entities. prefix e (drop 0 (escapeHtml ?s)))"
    by blast
  with v z show ?thesis by blast
qed

section \<open>The selection of the folder picker\<close>

lemma step_selectionAllowed: "selectionAllowed st \<Longrightarrow> selectionAllowed (step e st)"
  by (cases e)
     (auto simp: step_def selectionAllowed_def openModal_def closeModal_def setModalStatus_def
       listPath_begin_def listPath_end_def selectRow_def dblclick_def Let_def
       split: option.splits list.splits sum.splits)

lemma reachable_selectionAllowed:
  "reachable init st \<Longrightarrow> selected init = None \<Longrightarrow> selectionAllowed st"
proof (induction rule: reachable.induct)
  case reach_init
  then show ?case by (simp add: selectionAllowed_def)
next
  case (reach_step st e)
  then show ?case by (simp add: step_selectionAllowed)
qed

lemma denied_row_ignored:
  assumes "rowAt st i = Some r" "data_denied r = Some (str ''1'')"
  shows "selectRow (Some i) st = st" "dblclick i st = st"
        "step (RowClick i) st = st" "step (RowDblClick i) st = st"
  using assms by (simp_all add: selectRow_def dblclick_def step_def)

text \<open>
  C9. The selection never holds a denied entry. A row whose \<open>data-denied\<close> attribute is
  \<open>1\<close> is ignored by \<open>selectRow\<close>, by the click handler and by the double-click handler
  (the state, with its selection and its pending requests, is unchanged), and in every
  state the modal can reach from a start with nothing selected, a selection that is
  present has its \<open>denied\<close> field false.
\<close>

theorem selected_never_denied:
  assumes "selected init = None"
  shows "(\<forall>st i r. rowAt st i = Some r \<and> data_denied r = Some (str ''1'') \<longrightarrow>
            selectRow (Some i) st = st \<and> step (RowClick i) st = st
            \<and> step (RowDblClick i) st = st)
       \<and> (\<forall>st s. reachable init st \<and> selected st = Some s \<longrightarrow> \<not> denied s)"
proof (intro conjI allI impI)
  fix st i r
  assume "rowAt st i = Some r \<and> data_denied r = Some (str ''1'')"
  then show "selectRow (Some i) st = st" "step (RowClick i) st = st"
    "step (RowDblClick i) st = st"
    by (simp_all add: denied_row_ignored)
next
  fix st s
  assume a: "reachable init st \<and> selected st = Some s"
  with assms have "selectionAllowed st"
    by (blast intro: reachable_selectionAllowed)
  with a show "\<not> denied s" by (simp add: selectionAllowed_def)
qed

lemmas modal_defs = step_def openModal_def closeModal_def setModalStatus_def
  listPath_begin_def listPath_end_def selectRow_def dblclick_def rowAt_def folderRow_def
  closedModal_def driveC_def listedC_def windowsRow_def str_def Let_def
  parsedText_def parsedAttribute_def

theorem selected_never_denied_witness:
  "selected closedModal = None
   \<and> rowAt listedC 0 = Some windowsRow
   \<and> data_denied windowsRow = Some (str ''1'')
   \<and> selectRow (Some 0) listedC = listedC
   \<and> step (RowClick 0) listedC = listedC
   \<and> step (RowDblClick 0) listedC = listedC
   \<and> reachable closedModal (step (RowClick 1) listedC)
   \<and> selected (step (RowClick 1) listedC)
       = Some \<lparr>name = textContent (rows listedC ! 1),
                path = str ''C:'' @ [BACKSLASH] @ str ''Reports'', denied = False\<rparr>"
proof -
  have h: "selected closedModal = None"
    by (simp add: closedModal_def)
  have r0: "rowAt listedC 0 = Some windowsRow \<and> data_denied windowsRow = Some (str ''1'')"
    by (simp add: modal_defs)
  have re: "reachable closedModal (step (RowClick 1) listedC)"
    unfolding listedC_def by (intro reach_step reach_init)
  have s1: "selected (step (RowClick 1) listedC)
       = Some \<lparr>name = textContent (rows listedC ! 1),
                path = str ''C:'' @ [BACKSLASH] @ str ''Reports'', denied = False\<rparr>"
    by (simp add: modal_defs)
  from selected_never_denied [OF h] r0
  have "selectRow (Some 0) listedC = listedC \<and> step (RowClick 0) listedC = listedC
      \<and> step (RowDblClick 0) listedC = listedC"
    by blast
  with h r0 re s1 show ?thesis by simp
qed

section \<open>The result of getFilenameFromDisposition\<close>

lemma capture_Some:
  assumes "capture s = Some m"
  shows "m \<noteq> []" "DQUOTE \<notin> set m" "SEMI \<notin> set m"
proof -
  from assms have m: "m = takeWhile valueChar s" and ne: "m \<noteq> []"
    by (auto simp: capture_def Let_def split: if_splits)
  show "m \<noteq> []" by (rule ne)
  have "\<forall>c \<in> set m. valueChar c"
    unfolding m by (auto dest: set_takeWhileD)
  then show "DQUOTE \<notin> set m" "SEMI \<notin> set m"
    by (auto simp: valueChar_def)
qed

lemma matchAt_capture:
  assumes "matchAt s = Some m"
  shows "\<exists>r. capture r = Some m"
  using assms
  by (auto simp: matchAt_def orElse_def split: option.splits list.splits if_splits)

lemma matchAt_Some:
  assumes "matchAt s = Some m"
  shows "m \<noteq> []" "DQUOTE \<notin> set m" "SEMI \<notin> set m"
  using matchAt_capture [OF assms] capture_Some by blast+

lemma matchAt_Nil [simp]: "matchAt [] = None"
  by (simp add: matchAt_def str_def)

lemma execFilename_Some:
  "execFilename s = Some m \<Longrightarrow> \<exists>post. suffix post s \<and> matchAt post = Some m"
proof (induction s)
  case Nil
  then show ?case by simp
next
  case (Cons c cs)
  show ?case
  proof (cases "matchAt (c # cs)")
    case None
    with Cons.prems have "execFilename cs = Some m" by simp
    then obtain post where "suffix post cs" "matchAt post = Some m"
      using Cons.IH by blast
    then show ?thesis by (blast intro: suffix_ConsI)
  next
    case (Some a)
    with Cons.prems have "matchAt (c # cs) = Some m" by simp
    then show ?thesis by blast
  qed
qed

lemma execFilename_None_iff:
  "execFilename s = None \<longleftrightarrow> (\<forall>post. suffix post s \<longrightarrow> matchAt post = None)"
proof (induction s)
  case Nil
  then show ?case by simp
next
  case (Cons c cs)
  show ?case
  proof (cases "matchAt (c # cs)")
    case None
    then have "execFilename (c # cs) = execFilename cs" by simp
    with Cons.IH None show ?thesis
      by (auto simp: suffix_Cons)
  next
    case (Some a)
    then show ?thesis by auto
  qed
qed

lemma decodeURIComponent_plain:
  "PERCENT \<notin> set s \<Longrightarrow> decodeURIComponent s = Inr s"
  by (induction s) (simp_all add: emit_def)

lemma filter_absent: "x \<notin> set xs \<Longrightarrow> filter (\<lambda>c. c \<noteq> x) xs = xs"
  by (induction xs) auto

text \<open>
  C10, amended. The function returns \<open>null\<close> exactly when the header is \<open>null\<close> or
  empty or no suffix of it starts a match of the pattern. Every string it returns is
  \<open>decodeURIComponent t\<close>, where \<open>t\<close> is the captured value with its double quotes
  removed and then trimmed: \<open>t\<close> holds no double quote and is trimmed, and the result
  is \<open>t\<close> itself when \<open>t\<close> has no percent sign.
\<close>

theorem getFilenameFromDisposition_result:
  "(getFilenameFromDisposition d = Inr None \<longleftrightarrow>
      d = None \<or> d = Some [] \<or> (\<exists>s. d = Some s \<and> (\<forall>post. suffix post s \<longrightarrow> matchAt post = None)))
   \<and> (\<forall>r. getFilenameFromDisposition d = Inr (Some r) \<longrightarrow>
         (\<exists>s m t. d = Some s \<and> execFilename s = Some m
            \<and> t = trim (filter (\<lambda>c. c \<noteq> DQUOTE) m)
            \<and> DQUOTE \<notin> set t \<and> trim t = t
            \<and> decodeURIComponent t = Inr r
            \<and> (PERCENT \<notin> set t \<longrightarrow> r = t)))"
proof (intro conjI allI impI)
  show "getFilenameFromDisposition d = Inr None \<longleftrightarrow>
      d = None \<or> d = Some [] \<or> (\<exists>s. d = Some s \<and> (\<forall>post. suffix post s \<longrightarrow> matchAt post = None))"
  proof (cases d)
    case None
    then show ?thesis by (simp add: getFilenameFromDisposition_def)
  next
    case (Some s)
    show ?thesis
    proof (cases "execFilename s")
      case None
      with Some show ?thesis
        by (simp add: getFilenameFromDisposition_def execFilename_None_iff [symmetric])
    next
      case (Some m)
      with \<open>d = Some s\<close> show ?thesis
        by (auto simp: getFilenameFromDisposition_def execFilename_None_iff [symmetric]
            split: sum.splits)
    qed
  qed
next
  fix r
  assume a: "getFilenameFromDisposition d = Inr (Some r)"
  then obtain s m where d: "d = Some s" and m: "execFilename s = Some m"
    and dec: "decodeURIComponent (trim (filter (\<lambda>c. c \<noteq> DQUOTE) m)) = Inr r"
    by (auto simp: getFilenameFromDisposition_def split: option.splits if_splits sum.splits)
  let ?t = "trim (filter (\<lambda>c. c \<noteq> DQUOTE) m)"
  have q: "DQUOTE \<notin> set ?t"
    using set_trim_subset [of "filter (\<lambda>c. c \<noteq> DQUOTE) m"] by auto
  have p: "PERCENT \<notin> set ?t \<longrightarrow> r = ?t"
    using dec by (auto simp: decodeURIComponent_plain)
  from d m dec q p
  show "\<exists>s m t. d = Some s \<and> execFilename s = Some m
            \<and> t = trim (filter (\<lambda>c. c \<noteq> DQUOTE) m)
            \<and> DQUOTE \<notin> set t \<and> trim t = t
            \<and> decodeURIComponent t = Inr r
            \<and> (PERCENT \<notin> set t \<longrightarrow> r = t)"
    by simp
qed

lemmas filename_defs = getFilenameFromDisposition_def matchAt_def capture_def orElse_def
  valueChar_def toLowerAscii_def hexDigit_def leadingOnes_def isCont_def utf16Encode_def
  emit_def trim_def isWhiteSpace_def str_def Let_def

text \<open>
  C10, as stated, fails: decoding comes last, so a percent-escape can put a double quote
  or an outer space into the result.
\<close>

theorem quoted_result_counterexample:
  "getFilenameFromDisposition
     (Some (str ''attachment; filename*=UTF-8'' @ [SQUOTE, SQUOTE] @ str ''a%22b%20''))
     = Inr (Some (str ''a'' @ [DQUOTE] @ str ''b ''))
   \<and> DQUOTE \<in> set (str ''a'' @ [DQUOTE] @ str ''b '')
   \<and> trim (str ''a'' @ [DQUOTE] @ str ''b '') \<noteq> str ''a'' @ [DQUOTE] @ str ''b ''"
  by (simp add: filename_defs)

theorem getFilenameFromDisposition_result_witness:
  "getFilenameFromDisposition (Some (str ''attachment; filename='' @ [DQUOTE] @ str ''reporte.sql'' @ [DQUOTE]))
     = Inr (Some (str ''reporte.sql''))
   \<and> execFilename (str ''attachment; filename='' @ [DQUOTE] @ str ''reporte.sql'' @ [DQUOTE])
     = Some (str ''reporte.sql'')
   \<and> getFilenameFromDisposition (Some (str ''inline'')) = Inr None
   \<and> matchAt (str ''line'') = None"
proof -
  let ?h = "str ''attachment; filename='' @ [DQUOTE] @ str ''reporte.sql'' @ [DQUOTE]"
  have v: "getFilenameFromDisposition (Some ?h) = Inr (Some (str ''reporte.sql''))"
    by (simp add: filename_defs)
  have e: "execFilename ?h = Some (str ''reporte.sql'')"
    by (simp add: filename_defs)
  have n: "getFilenameFromDisposition (Some (str ''inline'')) = Inr None"
    by (simp add: filename_defs)
  have "suffix (str ''line'') (str ''inline'')"
    by (simp add: str_def suffix_def)
  with getFilenameFromDisposition_result [of "Some (str ''inline'')"] n
  have "matchAt (str ''line'') = None"
    by (auto simp: str_def)
  with v e n show ?thesis by simp
qed

section \<open>Facts about case folding\<close>

lemma code_lowerChar:
  "code (lowerChar c) = (if isUpper c \<or> isUpperLatin c then code c + 32 else code c)"
  by (auto simp: lowerChar_def code_def isUpper_def isUpperLatin_def)




section \<open>What the SQL validator denies\<close>








lemma lowered_literal:
  assumes "lowerChar c = l" "isLower l"
  shows "isLower (lowerChar c)"
  using assms by simp















section \<open>Case folding and the segments of a path\<close>

lemma code_inject: "code c = code d \<Longrightarrow> c = d"
  by (simp add: code_def)

lemma lowerChar_plain:
  assumes "\<not> isUpper x" "\<not> isUpperLatin x" "\<not> isLower x"
    "\<not> (224 \<le> code x \<and> code x \<le> 254 \<and> code x \<noteq> 247)"
  shows "lowerChar c = x \<longleftrightarrow> c = x"
proof
  assume e: "lowerChar c = x"
  show "c = x"
  proof (cases "isUpper c \<or> isUpperLatin c")
    case True
    then have "code x = code c + 32"
      using e code_lowerChar [of c] by simp
    with True assms show ?thesis
      by (auto simp: isUpper_def isUpperLatin_def isLower_def)
  next
    case False
    with e show ?thesis by (simp add: lowerChar_def)
  qed
next
  assume "c = x"
  with assms show "lowerChar c = x" by (simp add: lowerChar_def)
qed

lemma lowerChar_marks:
  "lowerChar c = BSL \<longleftrightarrow> c = BSL" "lowerChar c = CHR ''/'' \<longleftrightarrow> c = CHR ''/''"
  "lowerChar c = CHR ''.'' \<longleftrightarrow> c = CHR ''.''" "lowerChar c = CHR '':'' \<longleftrightarrow> c = CHR '':''"
  by (rule lowerChar_plain; simp add: isUpper_def isUpperLatin_def isLower_def code_def)+

lemma letter_lowerChar:
  "(isUpper (lowerChar l) \<or> isLower (lowerChar l)) = (isUpper l \<or> isLower l)"
  by (auto simp: isUpper_def isLower_def isUpperLatin_def code_lowerChar)

lemma lowerChar_BSL: "lowerChar BSL = BSL"
  using lowerChar_marks(1) [of BSL] by simp

lemma canonicalSeparators_lower: "canonicalSeparators (lower p) = lower (canonicalSeparators p)"
  by (induction p) (auto simp: canonicalSeparators_def lower_def lowerChar_marks lowerChar_BSL)

lemma splitSegments_not_Nil [simp]: "splitSegments p \<noteq> []"
  by (induction p) (auto split: list.splits)

lemma splitSegments_lower: "splitSegments (lower p) = map lower (splitSegments p)"
proof (induction p)
  case Nil
  then show ?case by (simp add: lower_def)
next
  case (Cons c p)
  then show ?case
    by (cases "splitSegments p") (auto simp: lower_def lowerChar_marks)
qed

lemma lower_dots: "lower s = [] \<longleftrightarrow> s = []" "lower s = ''.'' \<longleftrightarrow> s = ''.''"
  "lower s = ''..'' \<longleftrightarrow> s = ''..''"
  by (auto simp: lower_def lowerChar_marks map_eq_Cons_conv)

lemma isDrive_lower: "isDrive (lower s) = isDrive s"
proof (cases s)
  case Nil
  then show ?thesis by (simp add: isDrive_def lower_def)
next
  case (Cons l t)
  then show ?thesis
    by (cases t; cases "tl t")
       (auto simp: isDrive_def lower_def lowerChar_marks letter_lowerChar)
qed

lemma parentOf_lower: "parentOf (map lower acc) = map lower (parentOf acc)"
  by (cases acc; cases "tl acc") (auto simp: parentOf_def isDrive_lower)

lemma resolveSegments_lower:
  "resolveSegments (map lower acc) (map lower ss) = map lower (resolveSegments acc ss)"
proof (induction acc ss rule: resolveSegments.induct)
  case (1 acc)
  then show ?case by (simp add: rev_map)
next
  case (2 acc s ss)
  consider (skip) "s = [] \<or> s = ''.''" | (up) "s = ''..''"
    | (down) "s \<noteq> []" "s \<noteq> ''.''" "s \<noteq> ''..''"
    by blast
  then show ?case
  proof cases
    case skip
    with 2(1) show ?thesis by (auto simp: lower_dots)
  next
    case up
    then have ns: "\<not> (s = [] \<or> s = ''.'')" by simp
    from 2(2) [OF ns up] up show ?thesis
      by (simp add: lower_dots parentOf_lower)
  next
    case down
    with 2(3) show ?thesis by (simp add: lower_dots)
  qed
qed

lemma segments_lower: "segments (lower p) = segmentsCI p"
  using resolveSegments_lower [of "[]"]
  by (simp add: segments_def segmentsCI_def canonicalSeparators_lower splitSegments_lower)

lemma segmentsCI_cong: "lower p = lower q \<Longrightarrow> segmentsCI p = segmentsCI q"
  by (metis segments_lower)


section \<open>Splitting and resolving\<close>

lemma splitSegments_append:
  "splitSegments (s @ BSL # r) = splitSegments s @ splitSegments r"
proof (induction s)
  case Nil
  then show ?case by simp
next
  case (Cons c s)
  then show ?case
    by (cases "splitSegments s") auto
qed

lemma splitSegments_plain: "BSL \<notin> set s \<Longrightarrow> splitSegments s = [s]"
  by (induction s) auto

lemma splitSegments_chars:
  "x \<in> set (splitSegments s) \<Longrightarrow> c \<in> set x \<Longrightarrow> c \<in> set s \<and> c \<noteq> BSL"
proof (induction s arbitrary: x)
  case Nil
  then show ?case by simp
next
  case (Cons a s)
  show ?case
  proof (cases "a = BSL")
    case True
    with Cons show ?thesis by auto
  next
    case False
    obtain w ws where sp: "splitSegments s = w # ws"
      by (cases "splitSegments s") auto
    with False Cons.prems have "x = a # w \<or> x \<in> set ws" by simp
    then show ?thesis
    proof
      assume "x = a # w"
      with Cons.prems(2) have "c = a \<or> c \<in> set w" by simp
      then show ?thesis
        using False Cons.IH [of w] sp by auto
    next
      assume "x \<in> set ws"
      then show ?thesis
        using Cons.IH [of x] Cons.prems(2) sp by auto
    qed
  qed
qed

lemma resolveSegments_append:
  "resolveSegments acc (xs @ ys) = resolveSegments (rev (resolveSegments acc xs)) ys"
  by (induction acc xs rule: resolveSegments.induct) auto

lemma resolveSegments_no_parent:
  "''..'' \<notin> set ys \<Longrightarrow>
   resolveSegments acc ys = rev acc @ filter (\<lambda>s. s \<noteq> [] \<and> s \<noteq> ''.'') ys"
  by (induction acc ys rule: resolveSegments.induct) auto

lemma resolveSegments_members:
  "x \<in> set (resolveSegments acc ys) \<Longrightarrow>
   x \<in> set acc \<or> (x \<in> set ys \<and> x \<noteq> [] \<and> x \<noteq> ''.'' \<and> x \<noteq> ''..'')"
proof (induction acc ys rule: resolveSegments.induct)
  case (1 acc)
  then show ?case by simp
next
  case (2 acc s ss)
  have p: "set (parentOf acc) \<subseteq> set acc"
    by (cases acc; cases "tl acc") (auto simp: parentOf_def)
  from 2 p show ?case
    by (auto split: if_splits)
qed

section \<open>The normal form of a path\<close>

lemma canonicalSeparators_chars: "c \<in> set (canonicalSeparators p) \<Longrightarrow> c \<noteq> CHR ''/''"
  by (auto simp: canonicalSeparators_def)

lemma canonicalSeparators_fixed: "CHR ''/'' \<notin> set p \<Longrightarrow> canonicalSeparators p = p"
  by (induction p) (auto simp: canonicalSeparators_def)

lemma segments_ordinary:
  assumes "x \<in> set (segments p)"
  shows "x \<noteq> []" "x \<noteq> ''.''" "x \<noteq> ''..''" "BSL \<notin> set x" "CHR ''/'' \<notin> set x"
proof -
  from assms have m: "x \<in> set (splitSegments (canonicalSeparators p))"
    and o: "x \<noteq> [] \<and> x \<noteq> ''.'' \<and> x \<noteq> ''..''"
    using resolveSegments_members [of x "[]"] by (auto simp: segments_def)
  from o show "x \<noteq> []" "x \<noteq> ''.''" "x \<noteq> ''..''" by simp_all
  show "BSL \<notin> set x" "CHR ''/'' \<notin> set x"
    using splitSegments_chars [OF m] canonicalSeparators_chars [of _ p] by blast+
qed

lemma rootOf_cases: "rootOf p = [] \<or> rootOf p = [BSL] \<or> rootOf p = [BSL, BSL]"
proof -
  let ?t = "takeWhile (\<lambda>c. c = BSL) (canonicalSeparators p)"
  have a: "\<forall>c \<in> set ?t. c = BSL" by (auto dest: set_takeWhileD)
  show ?thesis
  proof (cases ?t)
    case Nil
    then show ?thesis by (simp add: rootOf_def)
  next
    case (Cons x u)
    with a show ?thesis
      by (cases u) (auto simp: rootOf_def)
  qed
qed

lemma joinWith_ends:
  assumes "xs \<noteq> []" "\<forall>x \<in> set xs. x \<noteq> [] \<and> BSL \<notin> set x"
  shows "joinWith [BSL] xs \<noteq> [] \<and> hd (joinWith [BSL] xs) \<noteq> BSL
       \<and> last (joinWith [BSL] xs) \<noteq> BSL"
  using assms
proof (induction "[BSL]" xs rule: joinWith.induct)
  case 1
  then show ?case by simp
next
  case (2 x)
  then have "x \<noteq> []" "BSL \<notin> set x" by simp_all
  then have "hd x \<noteq> BSL" "last x \<noteq> BSL"
    using hd_in_set [of x] last_in_set [of x] by metis+
  with \<open>x \<noteq> []\<close> show ?case by simp
next
  case (3 x v va)
  then show ?case by (cases x) auto
qed

lemma segments_plain:
  "CHR ''/'' \<notin> set w \<Longrightarrow> segments w = resolveSegments [] (splitSegments w)"
  by (simp add: segments_def canonicalSeparators_fixed)

lemma rootOf_plain:
  "CHR ''/'' \<notin> set w \<Longrightarrow> rootOf w = take 2 (takeWhile (\<lambda>c. c = BSL) w)"
  by (simp add: rootOf_def canonicalSeparators_fixed)

lemma segments_root: "segments [BSL] = []" "segments [BSL, BSL] = []"
  by (simp_all add: segments_def canonicalSeparators_def)

lemma rootOf_root: "rootOf [BSL] = [BSL]" "rootOf [BSL, BSL] = [BSL, BSL]"
  by (simp_all add: rootOf_def canonicalSeparators_def)

lemma joinWith_chars:
  "c \<in> set (joinWith [BSL] xs) \<Longrightarrow> c = BSL \<or> (\<exists>x \<in> set xs. c \<in> set x)"
  by (induction "[BSL]" xs rule: joinWith.induct) auto

lemma splitSegments_joinWith:
  assumes "xs \<noteq> []" "\<forall>x \<in> set xs. BSL \<notin> set x"
  shows "splitSegments (joinWith [BSL] xs) = xs"
  using assms
proof (induction "[BSL]" xs rule: joinWith.induct)
  case 1
  then show ?case by simp
next
  case (2 x)
  then show ?case by (simp add: splitSegments_plain)
next
  case (3 x v va)
  then have "splitSegments (x @ BSL # joinWith [BSL] (v # va)) = [x] @ (v # va)"
    by (simp add: splitSegments_append splitSegments_plain)
  then show ?case by simp
qed

lemma resolveSegments_ordinary:
  assumes "\<forall>x \<in> set xs. x \<noteq> [] \<and> x \<noteq> ''.'' \<and> x \<noteq> ''..''"
  shows "resolveSegments acc xs = rev acc @ xs"
proof -
  from assms have "''..'' \<notin> set xs" by auto
  then have "resolveSegments acc xs = rev acc @ filter (\<lambda>s. s \<noteq> [] \<and> s \<noteq> ''.'') xs"
    by (rule resolveSegments_no_parent)
  moreover from assms have "filter (\<lambda>s. s \<noteq> [] \<and> s \<noteq> ''.'') xs = xs"
    by (simp add: filter_id_conv)
  ultimately show ?thesis by simp
qed

lemma resolve_joined:
  assumes "\<forall>x \<in> set xs. x \<noteq> [] \<and> x \<noteq> ''.'' \<and> x \<noteq> ''..'' \<and> BSL \<notin> set x"
  shows "resolveSegments [] (splitSegments (joinWith [BSL] xs)) = xs"
proof (cases "xs = []")
  case True
  then show ?thesis by simp
next
  case False
  with assms have "splitSegments (joinWith [BSL] xs) = xs"
    by (intro splitSegments_joinWith) auto
  with assms show ?thesis
    by (simp add: resolveSegments_ordinary)
qed

lemma resolve_closed:
  "resolveSegments [] (splitSegments (j @ [BSL])) = resolveSegments [] (splitSegments j)"
  by (simp add: splitSegments_append resolveSegments_append)

text \<open>The normal form, by cases on the segments and the root.\<close>

lemma normalizedPath_cases:
  "normalizedPath p =
     (if segments p = [] then (if rootOf p = [] then [BSL] else rootOf p)
      else rootOf p @ joinWith [BSL] (segments p) @ [BSL])"
proof (cases "segments p = []")
  case True
  with rootOf_cases [of p] show ?thesis
    by (auto simp: normalizedPath_def)
next
  case False
  then have "last (joinWith [BSL] (segments p)) \<noteq> BSL" "joinWith [BSL] (segments p) \<noteq> []"
    using joinWith_ends [of "segments p"] segments_ordinary [of _ p] by blast+
  with False show ?thesis
    by (simp add: normalizedPath_def)
qed

lemma normalizedPath_chars:
  assumes "c \<in> set (normalizedPath p)"
  shows "c \<noteq> CHR ''/''"
proof -
  have r: "c \<in> set (rootOf p) \<Longrightarrow> c = BSL" for c
    using rootOf_cases [of p] by auto
  have j: "c \<in> set (joinWith [BSL] (segments p)) \<Longrightarrow> c \<noteq> CHR ''/''" for c
    using joinWith_chars [of c "segments p"] segments_ordinary(5) [of _ p] by auto
  from assms show ?thesis
    using r j by (auto simp: normalizedPath_cases split: if_splits)
qed

lemma normalizedPath_last: "normalizedPath p \<noteq> [] \<and> last (normalizedPath p) = BSL"
  using rootOf_cases [of p] by (auto simp: normalizedPath_cases)

lemma joinWith_no_slash: "CHR ''/'' \<notin> set (joinWith [BSL] (segments p))"
  using joinWith_chars [of "CHR ''/''" "segments p"] segments_ordinary(5) [of _ p] by auto

lemma segments_normalizedPath: "segments (normalizedPath p) = segments p"
proof -
  let ?j = "joinWith [BSL] (segments p)"
  have o: "\<forall>x \<in> set (segments p). x \<noteq> [] \<and> x \<noteq> ''.'' \<and> x \<noteq> ''..'' \<and> BSL \<notin> set x"
    using segments_ordinary [of _ p] by blast
  have j: "resolveSegments [] (splitSegments (?j @ [BSL])) = segments p"
    using resolve_joined [OF o] by (simp only: resolve_closed)
  have r: "segments (r @ ?j @ [BSL]) = segments p"
    if "r = [] \<or> r = [BSL] \<or> r = [BSL, BSL]" for r
  proof -
    from that have "CHR ''/'' \<notin> set (r @ ?j @ [BSL])"
      using joinWith_no_slash [of p] by auto
    then have "segments (r @ ?j @ [BSL]) = resolveSegments [] (splitSegments (r @ ?j @ [BSL]))"
      by (rule segments_plain)
    also from that have "\<dots> = resolveSegments [] (splitSegments (?j @ [BSL]))"
      by auto
    finally show ?thesis using j by simp
  qed
  show ?thesis
  proof (cases "segments p = []")
    case True
    with rootOf_cases [of p] show ?thesis
      by (auto simp: normalizedPath_cases segments_root)
  next
    case False
    then have "normalizedPath p = rootOf p @ ?j @ [BSL]"
      by (simp add: normalizedPath_cases)
    with r [OF rootOf_cases [of p]] show ?thesis by simp
  qed
qed

lemma rootOf_normalizedPath:
  assumes "segments p \<noteq> [] \<or> rootOf p \<noteq> []"
  shows "rootOf (normalizedPath p) = rootOf p"
proof (cases "segments p = []")
  case True
  with assms rootOf_cases [of p] show ?thesis
    by (auto simp: normalizedPath_cases rootOf_root)
next
  case False
  let ?j = "joinWith [BSL] (segments p)"
  from False have "?j \<noteq> []" "hd ?j \<noteq> BSL"
    using joinWith_ends [of "segments p"] segments_ordinary [of _ p] by blast+
  then obtain h t where j: "?j = h # t" "h \<noteq> BSL"
    by (cases ?j) auto
  have r: "rootOf (r @ ?j @ [BSL]) = r"
    if "r = [] \<or> r = [BSL] \<or> r = [BSL, BSL]" for r
  proof -
    from that have "CHR ''/'' \<notin> set (r @ ?j @ [BSL])"
      using joinWith_no_slash [of p] by auto
    then have "rootOf (r @ ?j @ [BSL]) = take 2 (takeWhile (\<lambda>c. c = BSL) (r @ ?j @ [BSL]))"
      by (rule rootOf_plain)
    also from that j have "\<dots> = r"
      by auto
    finally show ?thesis .
  qed
  from False have "normalizedPath p = rootOf p @ ?j @ [BSL]"
    by (simp add: normalizedPath_cases)
  with r [OF rootOf_cases [of p]] show ?thesis by simp
qed

lemma normalizedPath_idem: "normalizedPath (normalizedPath p) = normalizedPath p"
proof (cases "segments p \<noteq> [] \<or> rootOf p \<noteq> []")
  case True
  then have "rootOf (normalizedPath p) = rootOf p" by (rule rootOf_normalizedPath)
  then show ?thesis
    by (simp add: normalizedPath_def [of "normalizedPath p"] segments_normalizedPath
        normalizedPath_def [of p, symmetric])
next
  case False
  then have q: "normalizedPath p = [BSL]" by (simp add: normalizedPath_cases)
  show ?thesis
    by (simp add: q normalizedPath_cases [of "[BSL]"] segments_root rootOf_root)
qed

lemma isAdminShare_normalizedPath: "isAdminShare (normalizedPath p) = isAdminShare p"
proof (cases "segments p = []")
  case True
  then show ?thesis
    by (simp add: isAdminShare_def segments_normalizedPath)
next
  case False
  then have "rootOf (normalizedPath p) = rootOf p"
    by (simp add: rootOf_normalizedPath)
  then show ?thesis
    by (simp add: isAdminShare_def isUnc_def segments_normalizedPath)
qed

lemma underAny_normalizedPath: "underAny ds (normalizedPath p) = underAny ds p"
  by (simp add: underAny_def matchesPrefix_def segmentsCI_def segments_normalizedPath)

lemma validateExportPath_idem:
  assumes "validateExportPath writable cfg p = PathAllowed q"
  shows "validateExportPath writable cfg q = PathAllowed q"
proof -
  from assms have q: "q = normalizedPath p"
    by (auto simp: validateExportPath_def split: if_splits)
  from assms show ?thesis
    unfolding q validateExportPath_def
    by (simp add: underAny_normalizedPath isAdminShare_normalizedPath normalizedPath_idem
        split: if_splits option.splits)
qed

section \<open>Paths under a rule and their siblings\<close>









lemma underAny_member: "d \<in> set ds \<Longrightarrow> matchesPrefix d p \<Longrightarrow> underAny ds p"
  by (auto simp: underAny_def list_ex_iff)




section \<open>The normalised path in the browser\<close>

lemma of_char_word_eq: "(of_char c :: jschar) = of_char d \<Longrightarrow> c = d"
proof -
  assume a: "(of_char c :: jschar) = of_char d"
  have u: "unat (of_char e :: jschar) = (of_char e :: nat)" for e :: char
  proof -
    have "(of_char e :: nat) < 256" by (cases e) simp
    moreover have "(2::nat) ^ LENGTH(16) = 65536" by simp
    ultimately have l: "(of_char e :: nat) < 2 ^ LENGTH(16)" by linarith
    have "unat (of_nat (of_char e) :: 16 word) = of_char e mod 2 ^ LENGTH(16)"
      by (rule unat_of_nat)
    with l show ?thesis by (simp only: of_nat_of_char mod_less)
  qed
  from a have "unat (of_char c :: jschar) = unat (of_char d :: jschar)" by simp
  then have "(of_char c :: nat) = of_char d" by (simp only: u)
  then show "c = d" by simp
qed

lemma str_slash: "SLASH \<in> set (str q) \<longleftrightarrow> CHR ''/'' \<in> set q"
proof
  assume "SLASH \<in> set (str q)"
  then obtain c where c: "c \<in> set q" "(of_char c :: jschar) = of_char (CHR ''/'')"
    by (auto simp: str_def)
  from c(2) have "c = CHR ''/''" by (rule of_char_word_eq)
  with c(1) show "CHR ''/'' \<in> set q" by simp
next
  assume "CHR ''/'' \<in> set q"
  then have "of_char (CHR ''/'') \<in> set (str q)"
    unfolding str_def by (simp only: set_map image_eqI)
  then show "SLASH \<in> set (str q)" by simp
qed

lemma str_last: "q \<noteq> [] \<Longrightarrow> last q = BSL \<Longrightarrow> str q \<noteq> [] \<and> last (str q) = BACKSLASH"
  by (simp add: str_def last_map)

lemma trim_keeps_last:
  assumes "s \<noteq> []" "\<not> isWhiteSpace (last s)"
  shows "trim s \<noteq> [] \<and> last (trim s) = last s"
proof -
  let ?d = "dropWhile isWhiteSpace s"
  from assms have "last s \<in> set s" by simp
  with assms(2) have ne: "?d \<noteq> []"
    by (auto simp: dropWhile_eq_Nil_conv)
  have "s = takeWhile isWhiteSpace s @ ?d" by simp
  with ne have l: "last s = last ?d"
    by (metis last_appendR)
  from ne have "hd (rev ?d) = last ?d"
    by (simp add: hd_rev)
  with assms(2) l have "\<not> isWhiteSpace (hd (rev ?d))"
    by simp
  moreover from ne have "rev ?d \<noteq> []" by simp
  ultimately have "dropWhile isWhiteSpace (rev ?d) = rev ?d"
    by (cases "rev ?d") simp_all
  then have "trim s = ?d" by (simp add: trim_def)
  with ne l show ?thesis by simp
qed

lemma allowed_normalizedPath:
  "validateExportPath writable cfg rawPath = PathAllowed q \<Longrightarrow> q = normalizedPath rawPath"
  by (auto simp: validateExportPath_def split: if_splits)

text \<open>
  C4. Normalising an export path twice is the same as normalising it once. In the browser,
  \<open>ensureTrailingSeparator (ensureTrailingSeparator p) = ensureTrailingSeparator p\<close> for
  every string \<open>p\<close>. In the sanitizer, validating the normalised form \<open>q\<close> of an allowed path
  again, under the same configuration and the same answers of the file system, allows it
  and returns \<open>q\<close> unchanged.
\<close>

theorem normalization_idempotent:
  "ensureTrailingSeparator (ensureTrailingSeparator p) = ensureTrailingSeparator p
   \<and> (validateExportPath writable cfg rawPath = PathAllowed q
        \<longrightarrow> validateExportPath writable cfg q = PathAllowed q)"
  using ensureTrailingSeparator_twice [of p] validateExportPath_idem [of writable cfg rawPath q]
  by blast

theorem normalization_idempotent_witness:
  "ensureTrailingSeparator (str ''D:'' @ [BACKSLASH] @ str ''Reports'')
     = str ''D:'' @ [BACKSLASH] @ str ''Reports'' @ [BACKSLASH]
   \<and> ensureTrailingSeparator (ensureTrailingSeparator (str ''D:'' @ [BACKSLASH] @ str ''Reports''))
     = str ''D:'' @ [BACKSLASH] @ str ''Reports'' @ [BACKSLASH]
   \<and> validateExportPath (\<lambda>p. True) windowsOnly ''D:/Reports/./new/..''
     = PathAllowed (''D:'' @ [BSL] @ ''Reports'' @ [BSL])
   \<and> validateExportPath (\<lambda>p. True) windowsOnly (''D:'' @ [BSL] @ ''Reports'' @ [BSL])
     = PathAllowed (''D:'' @ [BSL] @ ''Reports'' @ [BSL])"
proof -
  let ?p = "str ''D:'' @ [BACKSLASH] @ str ''Reports''"
  let ?q = "''D:'' @ [BSL] @ ''Reports'' @ [BSL]"
  have e: "ensureTrailingSeparator ?p = ?p @ [BACKSLASH]"
    by (simp add: ensureTrailingSeparator_def str_def trim_def isWhiteSpace_def
        includesChar_def endsWith_def)
  have v: "validateExportPath (\<lambda>p. True) windowsOnly ''D:/Reports/./new/..'' = PathAllowed ?q"
    by code_simp
  from normalization_idempotent [of ?p "\<lambda>p. True" windowsOnly "''D:/Reports/./new/..''" ?q] e v
  show ?thesis by simp
qed

text \<open>
  C6. Every allowed path is returned in one separator style: the normalised form holds
  no slash, so never both a backslash and a slash, it ends with a backslash, and it has
  the segments of the raw path, whose separators were made canonical before the segments
  were read. The browser leaves such a path in that style: \<open>ensureTrailingSeparator\<close>
  only trims it, and its result does not hold both styles.
\<close>

theorem allowed_one_style:
  assumes "validateExportPath writable cfg rawPath = PathAllowed q"
  shows "CHR ''/'' \<notin> set q \<and> \<not> (BSL \<in> set q \<and> CHR ''/'' \<in> set q)
       \<and> q \<noteq> [] \<and> last q = BSL
       \<and> segments q = segments rawPath
       \<and> ensureTrailingSeparator (str q) = trim (str q)
       \<and> \<not> mixedSeparators (ensureTrailingSeparator (str q))"
proof -
  from assms have q: "q = normalizedPath rawPath"
    by (rule allowed_normalizedPath)
  have 1: "CHR ''/'' \<notin> set q"
    using normalizedPath_chars [of "CHR ''/''" rawPath] by (auto simp: q)
  have 2: "q \<noteq> []" "last q = BSL"
    using normalizedPath_last [of rawPath] by (simp_all add: q)
  have 3: "segments q = segments rawPath"
    by (simp add: q segments_normalizedPath)
  from 2 have s: "str q \<noteq> []" "last (str q) = BACKSLASH"
    using str_last [of q] by simp_all
  then have t: "trim (str q) \<noteq> []" "last (trim (str q)) = BACKSLASH"
    using trim_keeps_last [of "str q"] by simp_all
  with s(1) have 4: "ensureTrailingSeparator (str q) = trim (str q)"
    by (simp add: ensureTrailingSeparator_cases)
  from 1 have "SLASH \<notin> set (str q)"
    by (simp only: str_slash not_False_eq_True)
  with set_trim_subset [of "str q"] have "SLASH \<notin> set (trim (str q))"
    by blast
  then have 5: "\<not> mixedSeparators (ensureTrailingSeparator (str q))"
    by (simp add: 4 mixedSeparators_def includesChar_def)
  from 1 2 3 4 5 show ?thesis by simp
qed

theorem allowed_one_style_witness:
  "validateExportPath (\<lambda>p. True) windowsOnly (''C:'' @ [BSL] @ ''a/b'')
     = PathAllowed (''C:'' @ [BSL] @ ''a'' @ [BSL] @ ''b'' @ [BSL])
   \<and> CHR ''/'' \<notin> set (''C:'' @ [BSL] @ ''a'' @ [BSL] @ ''b'' @ [BSL])
   \<and> last (''C:'' @ [BSL] @ ''a'' @ [BSL] @ ''b'' @ [BSL]) = BSL
   \<and> segments (''C:'' @ [BSL] @ ''a/b'') = [''C:'', ''a'', ''b'']
   \<and> segments (''C:'' @ [BSL] @ ''a'' @ [BSL] @ ''b'' @ [BSL]) = [''C:'', ''a'', ''b'']
   \<and> ensureTrailingSeparator (str (''C:'' @ [BSL] @ ''a'' @ [BSL] @ ''b'' @ [BSL]))
     = str (''C:'' @ [BSL] @ ''a'' @ [BSL] @ ''b'' @ [BSL])
   \<and> \<not> mixedSeparators
         (ensureTrailingSeparator (str (''C:'' @ [BSL] @ ''a'' @ [BSL] @ ''b'' @ [BSL])))"
proof -
  let ?q = "''C:'' @ [BSL] @ ''a'' @ [BSL] @ ''b'' @ [BSL]"
  have v: "validateExportPath (\<lambda>p. True) windowsOnly (''C:'' @ [BSL] @ ''a/b'') = PathAllowed ?q"
    by code_simp
  have g: "segments (''C:'' @ [BSL] @ ''a/b'') = [''C:'', ''a'', ''b'']"
    by code_simp
  have t: "trim (str ?q) = str ?q"
    by (simp add: str_def trim_def isWhiteSpace_def)
  note a = allowed_one_style [OF v]
  note a2 = a [THEN conjunct2, THEN conjunct2, THEN conjunct2]
  note a3 = a2 [THEN conjunct2]
  note a4 = a3 [THEN conjunct2]
  have 1: "CHR ''/'' \<notin> set ?q" by (rule a [THEN conjunct1])
  have l: "last ?q = BSL" by (rule a2 [THEN conjunct1])
  from a3 [THEN conjunct1] g have 2: "segments ?q = [''C:'', ''a'', ''b'']"
    by (rule trans)
  from a4 [THEN conjunct1] t have 3: "ensureTrailingSeparator (str ?q) = str ?q"
    by (rule trans)
  have 4: "\<not> mixedSeparators (ensureTrailingSeparator (str ?q))"
    by (rule a4 [THEN conjunct2])
  from v 1 l g 2 3 4 show ?thesis by (intro conjI)
qed

section \<open>The lines a spool script writes\<close>

lemma replaceAll_quote:
  "replaceAll [DQ] [DQ, DQ] v = concat (map (\<lambda>ch. if ch = DQ then [DQ, DQ] else [ch]) v)"
  by (induction v) auto

lemma evalExpr_fieldExpr: "evalExpr row (fieldExpr c) = csvField (row c)"
  by (simp add: fieldExpr_def csvField_def replaceAll_quote)

lemma evalExpr_rowExpr:
  "evalExpr row (rowExpr cols) = joinWith '','' (map (\<lambda>c. csvField (row c)) cols)"
  by (induction cols rule: rowExpr.induct) (simp_all add: evalExpr_fieldExpr)

text \<open>
  C3. For every column sequence and every row of source values, the script the generator
  emits writes, after the header line of the individually quoted column names joined
  with commas, one line for each row: the fields joined with commas, each field being
  the value with every double quote doubled, wrapped in double quotes.
\<close>

theorem generateSpool_lines:
  "runScript sourceRows False (generateSpool cols sourceDescriptor exportPath reportName)
     = joinWith '','' (map (\<lambda>c. [DQ] @ c @ [DQ]) cols)
       # map (\<lambda>row. joinWith '','' (map (\<lambda>c. csvField (row c)) cols)) sourceRows"
  by (simp add: generateSpool_def headerLine_def evalExpr_rowExpr)

theorem generateSpool_lines_witness:
  "runScript [rowAna, rowLuis] False
     (generateSpool [''id'', ''name''] ''clientes'' (''D:'' @ [BSL] @ ''Reports'' @ [BSL]) ''clientes'')
     = [[DQ] @ ''id'' @ [DQ] @ '','' @ [DQ] @ ''name'' @ [DQ],
        [DQ] @ ''1'' @ [DQ] @ '','' @ [DQ] @ ''Ana'' @ [DQ],
        [DQ] @ ''2'' @ [DQ] @ '','' @ [DQ] @ ''Lu'' @ [DQ, DQ] @ ''is'' @ [DQ]]
   \<and> csvField (''Lu'' @ [DQ] @ ''is'') = [DQ] @ ''Lu'' @ [DQ, DQ] @ ''is'' @ [DQ]"
  using generateSpool_lines [of "[rowAna, rowLuis]" "[''id'', ''name'']" "''clientes''"
      "''D:'' @ [BSL] @ ''Reports'' @ [BSL]" "''clientes''"]
  by (simp add: csvField_def rowAna_def rowLuis_def)

end
